theory Spec2Isabelle
  imports Main "HOL-Library.Sublist" "HOL-Library.AList"
begin

section \<open>Values trees\<close>

text \<open>
  The values handed to the tag rewriter come out of \<^verbatim>\<open>json.Unmarshal\<close> into
  \<^verbatim>\<open>map[string]interface{}\<close>: a node is a mapping, a sequence, a string, a number
  (\<^verbatim>\<open>float64\<close>), a boolean or \<^verbatim>\<open>nil\<close>.  The code never inspects a number, so the
  tree is parametric in the number type \<open>'n\<close>.  A mapping is kept as an association
  list: the order of the list is the order in which \<^verbatim>\<open>range\<close> visits the keys (Go
  leaves it unspecified, every order is a list), \<^verbatim>\<open>m[k]\<close> is \<open>map_of m k\<close> and
  \<^verbatim>\<open>m[k] = v\<close> is \<open>AList.update k v m\<close>, which replaces the value of a key that is
  there and adds a key that is not.  A Go map has no duplicate keys, which is
  \<open>wf_value\<close> below.
\<close>

datatype 'n jvalue =
    JNull
  | JBool bool
  | JNum 'n
  | JStr string
  | JSeq "'n jvalue list"
  | JMap "(string \<times> 'n jvalue) list"

type_synonym 'n jmap = "(string \<times> 'n jvalue) list"

fun wf_value :: "'n jvalue \<Rightarrow> bool" where
  "wf_value (JMap kvs) = (distinct (map fst kvs) \<and> (\<forall>kv \<in> set kvs. wf_value (snd kv)))"
| "wf_value (JSeq xs) = (\<forall>x \<in> set xs. wf_value x)"
| "wf_value _ = True"

text \<open>
  A decoded document is a tree without sharing, so a reference to a mapping inside it
  is the path that leads to the mapping from the root.
\<close>

datatype step = Key string | Idx nat

type_synonym path = "step list"

fun get_at :: "path \<Rightarrow> 'n jvalue \<Rightarrow> 'n jvalue option" where
  "get_at [] v = Some v"
| "get_at (Key a # p) (JMap kvs) = (case map_of kvs a of None \<Rightarrow> None | Some v \<Rightarrow> get_at p v)"
| "get_at (Idx i # p) (JSeq xs) = (if i < length xs then get_at p (xs ! i) else None)"
| "get_at (s # p) v = None"

text \<open>
  \<open>assign p k x t\<close> is the assignment \<^verbatim>\<open>m[k] = x\<close> through a reference \<open>p\<close> to the
  mapping \<open>m\<close> of the tree \<open>t\<close>.  When \<open>p\<close> no longer leads to a mapping (an earlier
  assignment replaced an enclosing value by a string), the mapping that the Go
  reference still holds is unreachable from the root and the tree stays as it is.
\<close>

fun assign :: "path \<Rightarrow> string \<Rightarrow> 'n jvalue \<Rightarrow> 'n jvalue \<Rightarrow> 'n jvalue" where
  "assign [] k x (JMap kvs) = JMap (AList.update k x kvs)"
| "assign (Key a # p) k x (JMap kvs) = JMap (AList.map_entry a (assign p k x) kvs)"
| "assign (Idx i # p) k x (JSeq xs) =
     (if i < length xs then JSeq (xs[i := assign p k x (xs ! i)]) else JSeq xs)"
| "assign p k x v = v"

fun unJMap :: "'n jvalue \<Rightarrow> 'n jmap" where
  "unJMap (JMap kvs) = kvs"
| "unJMap v = []"

section \<open>Strings\<close>

text \<open>\<^verbatim>\<open>strings.HasPrefix(s, p)\<close> is \<open>prefix p s\<close>; \<^verbatim>\<open>strings.Split(s, ":")\<close> is
  \<open>split_on (CHR '':'') s\<close>.\<close>

fun split_on :: "char \<Rightarrow> string \<Rightarrow> string list" where
  "split_on c [] = [[]]"
| "split_on c (x # xs) =
     (if x = c then [] # split_on c xs
      else (case split_on c xs of [] \<Rightarrow> [[x]] | w # ws \<Rightarrow> (x # w) # ws))"

section \<open>The version pattern\<close>

text \<open>
  \<^verbatim>\<open>isValidSemver\<close> compiles the pattern
  \<^verbatim>\<open>^v?\d+\.\d+\.\d+(-[a-zA-Z0-9.-]+)?(\+[a-zA-Z0-9.-]+)?$\<close> and asks whether the
  string matches.  The pattern is anchored at both ends, and Go's \<^verbatim>\<open>$\<close> is the end of
  the text, so the answer is membership of the whole string in the pattern's language.
  Classes are lists of inclusive byte ranges; \<^verbatim>\<open>\d\<close> is \<^verbatim>\<open>[0-9]\<close> in Go.
\<close>

datatype rexp =
    Zero
  | One
  | Cls "(char \<times> char) list"
  | Alt rexp rexp
  | Cat rexp rexp
  | Star rexp

definition in_class :: "(char \<times> char) list \<Rightarrow> char \<Rightarrow> bool" where
  "in_class rs c = (\<exists>r \<in> set rs. (of_char (fst r) :: nat) \<le> of_char c \<and> (of_char c :: nat) \<le> of_char (snd r))"

definition Lit :: "char \<Rightarrow> rexp" where
  "Lit c = Cls [(c, c)]"

definition Opt :: "rexp \<Rightarrow> rexp" where
  "Opt r = Alt r One"

definition Plus :: "rexp \<Rightarrow> rexp" where
  "Plus r = Cat r (Star r)"

fun nullable :: "rexp \<Rightarrow> bool" where
  "nullable Zero = False"
| "nullable One = True"
| "nullable (Cls rs) = False"
| "nullable (Alt r s) = (nullable r \<or> nullable s)"
| "nullable (Cat r s) = (nullable r \<and> nullable s)"
| "nullable (Star r) = True"

fun deriv :: "char \<Rightarrow> rexp \<Rightarrow> rexp" where
  "deriv c Zero = Zero"
| "deriv c One = Zero"
| "deriv c (Cls rs) = (if in_class rs c then One else Zero)"
| "deriv c (Alt r s) = Alt (deriv c r) (deriv c s)"
| "deriv c (Cat r s) =
     (if nullable r then Alt (Cat (deriv c r) s) (deriv c s) else Cat (deriv c r) s)"
| "deriv c (Star r) = Cat (deriv c r) (Star r)"

fun match_string :: "rexp \<Rightarrow> string \<Rightarrow> bool" where
  "match_string r [] = nullable r"
| "match_string r (c # cs) = match_string (deriv c r) cs"

definition digit_class :: "(char \<times> char) list" where
  "digit_class = [(CHR ''0'', CHR ''9'')]"

definition ident_class :: "(char \<times> char) list" where
  "ident_class = [(CHR ''a'', CHR ''z''), (CHR ''A'', CHR ''Z''), (CHR ''0'', CHR ''9''),
                  (CHR ''.'', CHR ''.''), (CHR ''-'', CHR ''-'')]"

definition semverRegex :: rexp where
  "semverRegex =
     Cat (Opt (Lit (CHR ''v'')))
    (Cat (Plus (Cls digit_class))
    (Cat (Lit (CHR ''.''))
    (Cat (Plus (Cls digit_class))
    (Cat (Lit (CHR ''.''))
    (Cat (Plus (Cls digit_class))
    (Cat (Opt (Cat (Lit (CHR ''-'')) (Plus (Cls ident_class))))
         (Opt (Cat (Lit (CHR ''+'')) (Plus (Cls ident_class))))))))))"

definition isValidSemver :: "string \<Rightarrow> bool" where
  "isValidSemver tag = match_string semverRegex tag"

section \<open>The tree matcher\<close>

text \<open>
  A match of \<^verbatim>\<open>findImageBlocksUniversal\<close> is either the mapping \<^verbatim>\<open>typed\<close> itself (a
  structured block) or a fresh record of the key, the string and the parent mapping
  (an inline reference).  \<open>Block p m\<close> is a reference \<open>p\<close> to a mapping of the tree
  together with the contents \<open>m\<close> the mapping has when the walk meets it.  The rewrite
  loop only assigns to a mapping when it processes that mapping's own matches, the
  block first, so these are the contents it reads through the reference
  (\<open>block_read_is_current\<close> below).
\<close>

datatype 'n match =
    Block path "'n jmap"
  | Entry string string path

function walk :: "string \<Rightarrow> path \<Rightarrow> 'n jvalue \<Rightarrow> 'n match list" where
  "walk imageName p (JMap typed) =
     (if map_of typed ''repository'' = Some (JStr imageName) then [Block p typed] else [])
     @ concat (map (\<lambda>kv.
         (case snd kv of
            JStr strVal \<Rightarrow>
              if prefix (imageName @ '':'') strVal then [Entry (fst kv) strVal p]
              else walk imageName (p @ [Key (fst kv)]) (snd kv)
          | _ \<Rightarrow> walk imageName (p @ [Key (fst kv)]) (snd kv))) typed)"
| "walk imageName p (JSeq typed) =
     concat (map (\<lambda>ix. walk imageName (p @ [Idx (fst ix)]) (snd ix)) (enumerate 0 typed))"
| "walk imageName p JNull = []"
| "walk imageName p (JBool b) = []"
| "walk imageName p (JNum n) = []"
| "walk imageName p (JStr s) = []"
  by pat_completeness auto

lemma size_snd_field:
  "kv \<in> set kvs \<Longrightarrow> size (snd kv) < Suc (size_list (size_prod (\<lambda>_. 0) size) kvs)"
  by (induction kvs) auto

lemma size_snd_enumerate:
  "ix \<in> set (enumerate n xs) \<Longrightarrow> size (snd ix) < Suc (size_list size xs)"
  by (induction xs arbitrary: n) force+

termination walk
  by (relation "measure (\<lambda>(imageName, p, v). size v)")
     (auto dest: size_snd_field size_snd_enumerate)

definition findImageBlocksUniversal :: "'n jmap \<Rightarrow> string \<Rightarrow> 'n match list" where
  "findImageBlocksUniversal values imageName = walk imageName [] (JMap values)"

section \<open>The tag rewriter\<close>

text \<open>
  One turn of the loop of \<^verbatim>\<open>BumpTagInValuesUniversal\<close> first decides what to do with
  the match and then does it.  The decision is named after the line the code prints:
  \<open>SkipCurrent\<close> (already at the version), \<open>SkipInvalid\<close> (invalid version),
  \<open>WouldBump\<close> (dry run), \<open>Bumped p k s\<close> (the assignment \<^verbatim>\<open>m[k] = s\<close> of the string
  \<open>s\<close> through the reference \<open>p\<close>), and \<open>NoCase\<close> when neither case of the loop body
  applies.  The decision reads the match only; the tree and the flag change when it is
  carried out.
\<close>

datatype action =
    SkipCurrent
  | SkipInvalid
  | WouldBump
  | Bumped path string string
  | NoCase

definition string_at :: "'n jmap \<Rightarrow> string \<Rightarrow> string" where
  "string_at m k = (case map_of m k of Some (JStr s) \<Rightarrow> s | _ \<Rightarrow> [])"

definition structured_case :: "string \<Rightarrow> bool \<Rightarrow> path \<Rightarrow> 'n jmap \<Rightarrow> action" where
  "structured_case newVersion dryRun p image' =
     (let oldTag = string_at image' ''tag'' in
      if oldTag = newVersion then SkipCurrent
      else if \<not> isValidSemver newVersion then SkipInvalid
      else if dryRun then WouldBump
      else Bumped p ''tag'' newVersion)"

definition aspire_case ::
  "string \<Rightarrow> string \<Rightarrow> bool \<Rightarrow> string \<Rightarrow> string \<Rightarrow> path \<Rightarrow> action" where
  "aspire_case imageName newVersion dryRun key val path =
     (if prefix (imageName @ '':'') val then
        (let parts = split_on (CHR '':'') val;
             oldTag = last parts in
         if oldTag = newVersion then SkipCurrent
         else if \<not> isValidSemver newVersion then SkipInvalid
         else if dryRun then WouldBump
         else Bumped path key (imageName @ '':'' @ newVersion))
      else NoCase)"

text \<open>
  For a block the loop reads \<^verbatim>\<open>repository\<close> from the mapping; when that is not the
  image name it reads \<^verbatim>\<open>key\<close>, \<^verbatim>\<open>value\<close> and \<^verbatim>\<open>path\<close> from the same mapping, and
  \<^verbatim>\<open>path\<close>, if a mapping, is the child of the block under that key.  An inline
  record has no \<^verbatim>\<open>repository\<close> key and its three fields have the asserted types.
\<close>

fun bump_action :: "string \<Rightarrow> string \<Rightarrow> bool \<Rightarrow> 'n match \<Rightarrow> action" where
  "bump_action imageName newVersion dryRun (Block p image') =
     (if map_of image' ''repository'' = Some (JStr imageName)
      then structured_case newVersion dryRun p image'
      else (case (map_of image' ''key'', map_of image' ''value'', map_of image' ''path'') of
              (Some (JStr key), Some (JStr val), Some (JMap path)) \<Rightarrow>
                aspire_case imageName newVersion dryRun key val (p @ [Key ''path''])
            | _ \<Rightarrow> NoCase))"
| "bump_action imageName newVersion dryRun (Entry key val path) =
     aspire_case imageName newVersion dryRun key val path"

fun apply_action :: "action \<Rightarrow> 'n jvalue \<times> bool \<Rightarrow> 'n jvalue \<times> bool" where
  "apply_action SkipCurrent (t, updated) = (t, updated)"
| "apply_action SkipInvalid (t, updated) = (t, updated)"
| "apply_action WouldBump (t, updated) = (t, True)"
| "apply_action (Bumped p k s) (t, updated) = (assign p k (JStr s) t, True)"
| "apply_action NoCase (t, updated) = (t, updated)"

definition bump_match ::
  "string \<Rightarrow> string \<Rightarrow> bool \<Rightarrow> 'n jvalue \<times> bool \<Rightarrow> 'n match \<Rightarrow> 'n jvalue \<times> bool" where
  "bump_match imageName newVersion dryRun st image' =
     apply_action (bump_action imageName newVersion dryRun image') st"

text \<open>The result is the values after the call, the flag and the error (\<open>None\<close> is \<^verbatim>\<open>nil\<close>).\<close>

definition BumpTagInValuesUniversal ::
  "'n jmap \<Rightarrow> string \<Rightarrow> string \<Rightarrow> bool \<Rightarrow> 'n jmap \<times> bool \<times> string option" where
  "BumpTagInValuesUniversal values imageName newVersion dryRun =
     (let matches = findImageBlocksUniversal values imageName in
      if length matches = 0 then (values, False, None)
      else (case foldl (bump_match imageName newVersion dryRun) (JMap values, False) matches of
              (t, updated) \<Rightarrow> (unJMap t, updated, None)))"

text \<open>
  The loop of \<^verbatim>\<open>BumpMultipleTagsUniversalAndSanitize\<close> over the update directive,
  between decoding the values and writing the file: the updates in the order
  \<^verbatim>\<open>range\<close> visits them, the values after the loop, the count, and the error of the
  first call that returned one.
\<close>

fun bump_updates ::
  "'n jmap \<Rightarrow> (string \<times> string) list \<Rightarrow> bool \<Rightarrow> nat \<Rightarrow> 'n jmap \<times> nat \<times> string option" where
  "bump_updates values [] dryRun updatedCount = (values, updatedCount, None)"
| "bump_updates values ((imageName, newVersion) # updates) dryRun updatedCount =
     (case BumpTagInValuesUniversal values imageName newVersion dryRun of
        (values', updated, Some err) \<Rightarrow>
          (values', updatedCount, Some (''error updating image '' @ imageName @ '': '' @ err))
      | (values', updated, None) \<Rightarrow>
          bump_updates values' updates dryRun (if updated then updatedCount + 1 else updatedCount))"

section \<open>The structured-only path\<close>

text \<open>\<^verbatim>\<open>findImageBlocks\<close> and \<^verbatim>\<open>BumpTagInValues\<close> of \<^verbatim>\<open>flux-helpers.go\<close>: the walk
  collects blocks only and visits every value of a mapping.\<close>

function walk_blocks :: "string \<Rightarrow> path \<Rightarrow> 'n jvalue \<Rightarrow> 'n match list" where
  "walk_blocks imageName p (JMap typed) =
     (if map_of typed ''repository'' = Some (JStr imageName) then [Block p typed] else [])
     @ concat (map (\<lambda>kv. walk_blocks imageName (p @ [Key (fst kv)]) (snd kv)) typed)"
| "walk_blocks imageName p (JSeq typed) =
     concat (map (\<lambda>ix. walk_blocks imageName (p @ [Idx (fst ix)]) (snd ix)) (enumerate 0 typed))"
| "walk_blocks imageName p JNull = []"
| "walk_blocks imageName p (JBool b) = []"
| "walk_blocks imageName p (JNum n) = []"
| "walk_blocks imageName p (JStr s) = []"
  by pat_completeness auto

termination walk_blocks
  by (relation "measure (\<lambda>(imageName, p, v). size v)")
     (auto dest: size_snd_field size_snd_enumerate)

definition findImageBlocks :: "'n jmap \<Rightarrow> string \<Rightarrow> 'n match list" where
  "findImageBlocks values imageName = walk_blocks imageName [] (JMap values)"

fun bump_block_action :: "string \<Rightarrow> string \<Rightarrow> bool \<Rightarrow> 'n match \<Rightarrow> action" where
  "bump_block_action imageName newVersion dryRun (Block p image') =
     (if map_of image' ''repository'' = Some (JStr imageName)
      then structured_case newVersion dryRun p image'
      else NoCase)"
| "bump_block_action imageName newVersion dryRun (Entry key val path) = NoCase"

fun apply_block_action :: "action \<Rightarrow> 'n jvalue \<Rightarrow> 'n jvalue" where
  "apply_block_action (Bumped p k s) t = assign p k (JStr s) t"
| "apply_block_action a t = t"

definition BumpTagInValues ::
  "'n jmap \<Rightarrow> string \<Rightarrow> string \<Rightarrow> bool \<Rightarrow> 'n jmap \<times> bool \<times> string option" where
  "BumpTagInValues values imageName newVersion dryRun =
     (let matches = findImageBlocks values imageName in
      if length matches = 0 then (values, False, None)
      else (unJMap (foldl (\<lambda>t image'.
                apply_block_action (bump_block_action imageName newVersion dryRun image') t)
              (JMap values) matches), True, None))"

section \<open>Reading a result\<close>

definition values_of :: "'n jmap \<times> bool \<times> string option \<Rightarrow> 'n jmap" where
  "values_of r = fst r"

definition changed_of :: "'n jmap \<times> bool \<times> string option \<Rightarrow> bool" where
  "changed_of r = fst (snd r)"

definition error_of :: "'n jmap \<times> bool \<times> string option \<Rightarrow> string option" where
  "error_of r = snd (snd r)"

text \<open>A turn of the loop that reaches \<^verbatim>\<open>updated = true\<close>, for real or in a dry run,
  and a turn that leaves through one of the two \<^verbatim>\<open>continue\<close> statements.\<close>

fun is_update :: "action \<Rightarrow> bool" where
  "is_update WouldBump = True"
| "is_update (Bumped p k x) = True"
| "is_update a = False"

fun is_skip :: "action \<Rightarrow> bool" where
  "is_skip SkipCurrent = True"
| "is_skip SkipInvalid = True"
| "is_skip a = False"

text \<open>The version the loop compares with the new one: the \<^verbatim>\<open>tag\<close> string of a block
  (empty when there is none) and what follows the last colon of an inline string.\<close>

fun current_version :: "'n match \<Rightarrow> string" where
  "current_version (Block p m) = string_at m ''tag''"
| "current_version (Entry k s p) = last (split_on CHR '':'' s)"

text \<open>The reference a match holds, and the order of the walk: a block comes before every
  match whose reference leads to it or into it.\<close>

fun ref :: "'n match \<Rightarrow> path" where
  "ref (Block p m) = p"
| "ref (Entry k s p) = p"

definition block_first :: "'n match list \<Rightarrow> bool" where
  "block_first ms = (\<forall>xs p m ys. ms = xs @ Block p m # ys \<longrightarrow> (\<forall>x \<in> set xs. \<not> prefix p (ref x)))"

section \<open>The version format in words\<close>

text \<open>
  The format as the specification words it: an optional leading \<^verbatim>\<open>v\<close>, three runs of
  one or more digits separated by dots, then optionally a hyphen and a non-empty run
  of letters, digits, dots and hyphens, then optionally a plus sign and such a run.
\<close>

definition is_digit :: "char \<Rightarrow> bool" where
  "is_digit c = (c \<in> set ''0123456789'')"

definition is_ident_char :: "char \<Rightarrow> bool" where
  "is_ident_char c =
     (c \<in> set ''abcdefghijklmnopqrstuvwxyz'' \<or> c \<in> set ''ABCDEFGHIJKLMNOPQRSTUVWXYZ'' \<or>
      is_digit c \<or> c = CHR ''.'' \<or> c = CHR ''-'')"

definition digits :: "string \<Rightarrow> bool" where
  "digits s = (s \<noteq> [] \<and> (\<forall>c \<in> set s. is_digit c))"

definition ident :: "string \<Rightarrow> bool" where
  "ident s = (s \<noteq> [] \<and> (\<forall>c \<in> set s. is_ident_char c))"

definition semver_form :: "string \<Rightarrow> bool" where
  "semver_form s =
     (\<exists>v major minor patch pre build.
        s = v @ major @ ''.'' @ minor @ ''.'' @ patch @ pre @ build \<and>
        (v = [] \<or> v = ''v'') \<and>
        digits major \<and> digits minor \<and> digits patch \<and>
        (pre = [] \<or> (\<exists>x. pre = ''-'' @ x \<and> ident x)) \<and>
        (build = [] \<or> (\<exists>y. build = ''+'' @ y \<and> ident y)))"

section \<open>Assignments through references\<close>

text \<open>
  What a later reader of the tree sees after the loop has run: \<open>field_str m k\<close> is the
  string a mapping holds under a key, if it holds one, and \<open>last_write p k as\<close> is the
  string the last assignment among the actions \<open>as\<close> stored under the key \<open>k\<close> of the
  mapping at \<open>p\<close>.
\<close>

definition field_str :: "'n jmap \<Rightarrow> string \<Rightarrow> string option" where
  "field_str m key = (case map_of m key of Some (JStr s) \<Rightarrow> Some s | _ \<Rightarrow> None)"

fun last_write :: "path \<Rightarrow> string \<Rightarrow> action list \<Rightarrow> string option" where
  "last_write p key [] = None"
| "last_write p key (a # as) =
     (case last_write p key as of
        Some y \<Rightarrow> Some y
      | None \<Rightarrow> (case a of Bumped q k x \<Rightarrow> if q = p \<and> k = key then Some x else None
                | _ \<Rightarrow> None))"

text \<open>
  \<open>run_actions as st\<close> is the loop seen as a list of decisions carried out one after the
  other on the tree and the flag.
\<close>

definition run_actions :: "action list \<Rightarrow> 'n jvalue \<times> bool \<Rightarrow> 'n jvalue \<times> bool" where
  "run_actions as st = foldl (\<lambda>st a. apply_action a st) st as"

section \<open>Example values\<close>

text \<open>
  The values of the example of the specification; a block whose \<^verbatim>\<open>tag\<close> is an image
  reference itself; an inline reference behind a registry with a port; a block whose
  \<^verbatim>\<open>tag\<close> is a number; a block without \<^verbatim>\<open>tag\<close> next to an inline reference in the same
  mapping; and image references as elements of a sequence.
\<close>

definition example_values :: "nat jmap" where
  "example_values =
     [(''image'', JMap [(''repository'', JStr ''ghcr.io/my-org/my-api''), (''tag'', JStr ''1.2.3'')]),
      (''images'', JMap [(''api'', JStr ''ghcr.io/my-org/api:1.3.8'')])]"

definition overlap_values :: "nat jmap" where
  "overlap_values = [(''repository'', JStr ''img''), (''tag'', JStr ''img:1.0.0'')]"

definition registry_values :: "nat jvalue" where
  "registry_values = JMap [(''images'', JMap [(''api'', JStr ''registry:5000/img:1.2.3'')])]"

definition untagged_values :: "nat jvalue" where
  "untagged_values = JMap [(''image'', JMap [(''repository'', JStr ''busybox''), (''tag'', JNum 7)])]"

definition mixed_values :: "nat jmap" where
  "mixed_values =
     [(''app'', JMap [(''repository'', JStr ''img''), (''sidecar'', JStr ''img:1.0.0'')])]"

definition seq_values :: "nat jmap" where
  "seq_values =
     [(''args'', JSeq [JStr ''img:1.0.0'', JStr ''other'']), (''main'', JStr ''img:1.0.0'')]"

section \<open>The loop, turn by turn\<close>

lemma snd_apply_action: "snd (apply_action a st) = (snd st \<or> is_update a)"
  by (cases a; cases st) auto

lemma apply_action_no_update: "\<not> is_update a \<Longrightarrow> apply_action a st = st"
  by (cases a; cases st) auto

lemma snd_foldl_bump_match:
  "snd (foldl (bump_match imageName newVersion dryRun) st ms) =
     (snd st \<or> (\<exists>m \<in> set ms. is_update (bump_action imageName newVersion dryRun m)))"
  by (induction ms arbitrary: st) (auto simp: bump_match_def snd_apply_action)

lemma is_update_structured:
  "is_update (structured_case v d p m) = (string_at m ''tag'' \<noteq> v \<and> isValidSemver v)"
  by (simp add: structured_case_def Let_def)

lemma is_update_aspire:
  "is_update (aspire_case i v d key val p) =
     (prefix (i @ '':'') val \<and> last (split_on CHR '':'' val) \<noteq> v \<and> isValidSemver v)"
  by (simp add: aspire_case_def Let_def)

lemma is_update_dry_irrelevant:
  "is_update (bump_action i v d m) = is_update (bump_action i v d' m)"
  by (cases m) (auto simp: is_update_structured is_update_aspire split: option.splits jvalue.splits)

lemma bump_action_invalid: "\<not> isValidSemver v \<Longrightarrow> \<not> is_update (bump_action i v d m)"
  by (cases m) (auto simp: is_update_structured is_update_aspire split: option.splits jvalue.splits)

lemma bump_action_dry: "bump_action i v True m \<noteq> Bumped q k x"
  by (cases m)
     (auto simp: structured_case_def aspire_case_def Let_def split: option.splits jvalue.splits)

lemma fst_apply_action_no_write:
  "(\<And>p k x. a \<noteq> Bumped p k x) \<Longrightarrow> fst (apply_action a st) = fst st"
  by (cases a; cases st) auto

lemma fst_foldl_dry: "fst (foldl (bump_match i v True) st ms) = fst st"
  by (induction ms arbitrary: st)
     (auto simp: bump_match_def fst_apply_action_no_write bump_action_dry)

lemma foldl_invalid: "\<not> isValidSemver v \<Longrightarrow> foldl (bump_match i v d) st ms = st"
  by (induction ms arbitrary: st)
     (auto simp: bump_match_def apply_action_no_update bump_action_invalid)

lemma changed_of_universal:
  "changed_of (BumpTagInValuesUniversal vs i v d) =
     (\<exists>m \<in> set (findImageBlocksUniversal vs i). is_update (bump_action i v d m))"
  by (auto simp: changed_of_def BumpTagInValuesUniversal_def Let_def snd_foldl_bump_match
           split: prod.splits dest: arg_cong[where f=snd])

lemma error_of_universal: "error_of (BumpTagInValuesUniversal vs i v d) = None"
  by (auto simp: error_of_def BumpTagInValuesUniversal_def Let_def split: prod.splits)

lemma universal_invalid:
  "\<not> isValidSemver v \<Longrightarrow> BumpTagInValuesUniversal vs i v d = (vs, False, None)"
  by (simp add: BumpTagInValuesUniversal_def Let_def foldl_invalid)

lemma bump_updates_skip_invalid:
  "\<not> isValidSemver v \<Longrightarrow>
     bump_updates vs (us1 @ (i, v) # us2) d n = bump_updates vs (us1 @ us2) d n"
proof (induction us1 arbitrary: vs n)
  case Nil
  then show ?case by (simp add: universal_invalid)
next
  case (Cons u us1)
  obtain i' v' where u: "u = (i', v')" by (cases u)
  obtain vs' c e where r: "BumpTagInValuesUniversal vs i' v' d = (vs', c, e)"
    by (cases "BumpTagInValuesUniversal vs i' v' d")
  show ?case using Cons by (cases e) (simp_all add: u r)
qed

section \<open>Splitting strings and following references\<close>

lemma split_on_not_Nil: "split_on c s \<noteq> []"
  by (induction s) (auto split: list.splits)

lemma split_on_no_sep: "c \<notin> set s \<Longrightarrow> split_on c s = [s]"
  by (induction s) auto

lemma split_on_snoc:
  "c \<notin> set cur \<Longrightarrow> \<exists>w ws. split_on c (pre @ c # cur) = w # ws @ [cur]"
  by (induction pre) (auto simp: split_on_no_sep)

lemma last_split_on: "c \<notin> set cur \<Longrightarrow> last (split_on c (pre @ c # cur)) = cur"
  using split_on_snoc[of c cur pre] by auto

lemma get_at_JStr: "get_at q (JStr s) = Some v \<Longrightarrow> q = [] \<and> v = JStr s"
  by (cases q) auto

lemma get_at_assign_same:
  "get_at p t = Some (JMap m) \<Longrightarrow> get_at p (assign p k x t) = Some (JMap (AList.update k x m))"
proof (induction p arbitrary: t)
  case Nil
  then show ?case by simp
next
  case (Cons s p)
  show ?case
  proof (cases s)
    case (Key a)
    with Cons.prems obtain kvs v where t: "t = JMap kvs" and v: "map_of kvs a = Some v"
      and g: "get_at p v = Some (JMap m)"
      by (cases t) (auto split: option.splits)
    show ?thesis using Cons.IH[OF g] by (simp add: Key t v map_of_map_entry)
  next
    case (Idx i)
    with Cons.prems obtain xs where t: "t = JSeq xs" and i: "i < length xs"
      and g: "get_at p (xs ! i) = Some (JMap m)"
      by (cases t) (auto split: if_splits)
    show ?thesis using Cons.IH[OF g] by (simp add: Idx t i)
  qed
qed

section \<open>What the walk finds\<close>

lemma walk_field_subset:
  assumes "(a, v) \<in> set typed" and "\<forall>s. v \<noteq> JStr s"
  shows "set (walk i (p @ [Key a]) v) \<subseteq> set (walk i p (JMap typed))"
proof -
  have "set (case snd (a, v) of
            JStr strVal \<Rightarrow> if prefix (i @ '':'') strVal then [Entry (fst (a, v)) strVal p]
              else walk i (p @ [Key (fst (a, v))]) (snd (a, v))
          | _ \<Rightarrow> walk i (p @ [Key (fst (a, v))]) (snd (a, v))) = set (walk i (p @ [Key a]) v)"
    using assms(2) by (cases v) auto
  then show ?thesis using assms(1) by (fastforce simp del: walk.simps(1) simp add: walk.simps(1)[of i p typed])
qed

lemma walk_item_subset:
  assumes "j < length xs"
  shows "set (walk i (p @ [Idx j]) (xs ! j)) \<subseteq> set (walk i p (JSeq xs))"
proof -
  have "(j, xs ! j) \<in> set (enumerate 0 xs)"
    using assms by (simp add: in_set_enumerate_eq)
  then show ?thesis by force
qed

lemma walk_subtree:
  "get_at q v = Some (JMap m) \<Longrightarrow> set (walk i (p @ q) (JMap m)) \<subseteq> set (walk i p v)"
proof (induction q arbitrary: p v)
  case Nil
  then show ?case by simp
next
  case (Cons s q)
  show ?case
  proof (cases s)
    case (Key a)
    with Cons.prems obtain kvs v' where v: "v = JMap kvs" and a: "map_of kvs a = Some v'"
      and g: "get_at q v' = Some (JMap m)"
      by (cases v) (auto split: option.splits)
    have ns: "\<forall>s. v' \<noteq> JStr s" using g get_at_JStr by blast
    have "set (walk i ((p @ [Key a]) @ q) (JMap m)) \<subseteq> set (walk i (p @ [Key a]) v')"
      using Cons.IH[OF g] .
    also have "\<dots> \<subseteq> set (walk i p (JMap kvs))"
      using walk_field_subset[OF map_of_SomeD[OF a] ns] .
    finally show ?thesis by (simp add: Key v)
  next
    case (Idx j)
    with Cons.prems obtain xs where v: "v = JSeq xs" and j: "j < length xs"
      and g: "get_at q (xs ! j) = Some (JMap m)"
      by (cases v) (auto split: if_splits)
    have "set (walk i ((p @ [Idx j]) @ q) (JMap m)) \<subseteq> set (walk i (p @ [Idx j]) (xs ! j))"
      using Cons.IH[OF g] .
    also have "\<dots> \<subseteq> set (walk i p (JSeq xs))"
      using walk_item_subset[OF j] .
    finally show ?thesis by (simp add: Idx v)
  qed
qed

lemma walk_JMap_block:
  "map_of m ''repository'' = Some (JStr i) \<Longrightarrow> Block p m \<in> set (walk i p (JMap m))"
  by simp

lemma walk_JMap_entry:
  "(k, JStr s) \<in> set m \<Longrightarrow> prefix (i @ '':'') s \<Longrightarrow> Entry k s p \<in> set (walk i p (JMap m))"
  by force

lemma in_walk_JMap:
  "x \<in> set (walk i p (JMap typed)) \<longleftrightarrow>
     (x = Block p typed \<and> map_of typed ''repository'' = Some (JStr i)) \<or>
     (\<exists>kv \<in> set typed.
        (\<exists>s. snd kv = JStr s \<and> prefix (i @ '':'') s \<and> x = Entry (fst kv) s p) \<or>
        x \<in> set (walk i (p @ [Key (fst kv)]) (snd kv)))"
proof -
  have f: "x \<in> set (case snd kv of
            JStr strVal \<Rightarrow> if prefix (i @ '':'') strVal then [Entry (fst kv) strVal p]
              else walk i (p @ [Key (fst kv)]) (snd kv)
          | _ \<Rightarrow> walk i (p @ [Key (fst kv)]) (snd kv)) \<longleftrightarrow>
        (\<exists>s. snd kv = JStr s \<and> prefix (i @ '':'') s \<and> x = Entry (fst kv) s p) \<or>
        x \<in> set (walk i (p @ [Key (fst kv)]) (snd kv))" for kv :: "string \<times> 'a jvalue"
    by (cases "snd kv") auto
  show ?thesis
    unfolding walk.simps(1) set_append set_concat set_map Un_iff UN_iff bex_simps image_iff f
    by auto
qed

lemma walk_sound:
  assumes "wf_value v"
  shows "(Block r m \<in> set (walk i p v) \<longrightarrow>
           (\<exists>q. r = p @ q \<and> get_at q v = Some (JMap m) \<and> map_of m ''repository'' = Some (JStr i))) \<and>
         (Entry k s r \<in> set (walk i p v) \<longrightarrow>
           (\<exists>q m'. r = p @ q \<and> get_at q v = Some (JMap m') \<and> map_of m' k = Some (JStr s) \<and> prefix (i @ '':'') s))"
  using assms
proof (induction i p v rule: walk.induct)
  case (1 i p typed)
  have d: "distinct (map fst typed)" using "1.prems" by simp
  have look: "map_of typed (fst kv) = Some (snd kv)" if "kv \<in> set typed" for kv
    using d that by (cases kv) simp
  have sub: "(Block r m \<in> set (walk i (p @ [Key (fst kv)]) (snd kv)) \<longrightarrow>
           (\<exists>q. r = p @ q \<and> get_at q (JMap typed) = Some (JMap m) \<and> map_of m ''repository'' = Some (JStr i))) \<and>
         (Entry k s r \<in> set (walk i (p @ [Key (fst kv)]) (snd kv)) \<longrightarrow>
           (\<exists>q m'. r = p @ q \<and> get_at q (JMap typed) = Some (JMap m') \<and> map_of m' k = Some (JStr s) \<and> prefix (i @ '':'') s))"
    if kv: "kv \<in> set typed" for kv
  proof -
    have w: "wf_value (snd kv)" using "1.prems" kv by simp
    have ih: "(Block r m \<in> set (walk i (p @ [Key (fst kv)]) (snd kv)) \<longrightarrow>
           (\<exists>q. r = (p @ [Key (fst kv)]) @ q \<and> get_at q (snd kv) = Some (JMap m) \<and> map_of m ''repository'' = Some (JStr i))) \<and>
         (Entry k s r \<in> set (walk i (p @ [Key (fst kv)]) (snd kv)) \<longrightarrow>
           (\<exists>q m'. r = (p @ [Key (fst kv)]) @ q \<and> get_at q (snd kv) = Some (JMap m') \<and> map_of m' k = Some (JStr s) \<and> prefix (i @ '':'') s))"
    proof (cases "snd kv")
      case (JStr x)
      then show ?thesis by simp
    qed (use "1.IH" kv w in auto)
    have step: "get_at (Key (fst kv) # q) (JMap typed) = get_at q (snd kv)" for q
      by (simp add: look[OF kv])
    show ?thesis
    proof (intro conjI impI)
      assume "Block r m \<in> set (walk i (p @ [Key (fst kv)]) (snd kv))"
      with ih obtain q where "r = (p @ [Key (fst kv)]) @ q" "get_at q (snd kv) = Some (JMap m)"
        "map_of m ''repository'' = Some (JStr i)" by blast
      then show "\<exists>q. r = p @ q \<and> get_at q (JMap typed) = Some (JMap m) \<and> map_of m ''repository'' = Some (JStr i)"
        using step[of q] by (intro exI[of _ "Key (fst kv) # q"]) simp
    next
      assume "Entry k s r \<in> set (walk i (p @ [Key (fst kv)]) (snd kv))"
      with ih obtain q m' where "r = (p @ [Key (fst kv)]) @ q" "get_at q (snd kv) = Some (JMap m')"
        "map_of m' k = Some (JStr s)" "prefix (i @ '':'') s" by blast
      then show "\<exists>q m'. r = p @ q \<and> get_at q (JMap typed) = Some (JMap m') \<and> map_of m' k = Some (JStr s) \<and> prefix (i @ '':'') s"
        using step[of q] by (intro exI[of _ "Key (fst kv) # q"] exI[of _ m']) simp
    qed
  qed
  show ?case
  proof (intro conjI impI)
    assume b: "Block r m \<in> set (walk i p (JMap typed))"
    then consider "r = p" "m = typed" "map_of typed ''repository'' = Some (JStr i)"
      | kv where "kv \<in> set typed" "Block r m \<in> set (walk i (p @ [Key (fst kv)]) (snd kv))"
      unfolding in_walk_JMap by blast
    then show "\<exists>q. r = p @ q \<and> get_at q (JMap typed) = Some (JMap m) \<and> map_of m ''repository'' = Some (JStr i)"
    proof cases
      case 1
      then show ?thesis by (intro exI[of _ "[]"]) simp
    next
      case 2
      then show ?thesis using sub by blast
    qed
  next
    assume e: "Entry k s r \<in> set (walk i p (JMap typed))"
    then consider kv where "kv \<in> set typed" "snd kv = JStr s" "prefix (i @ '':'') s" "k = fst kv" "r = p"
      | kv where "kv \<in> set typed" "Entry k s r \<in> set (walk i (p @ [Key (fst kv)]) (snd kv))"
      unfolding in_walk_JMap by blast
    then show "\<exists>q m'. r = p @ q \<and> get_at q (JMap typed) = Some (JMap m') \<and> map_of m' k = Some (JStr s) \<and> prefix (i @ '':'') s"
    proof cases
      case 1
      then show ?thesis using look[OF 1(1)] by (intro exI[of _ "[]"] exI[of _ typed]) simp
    next
      case 2
      then show ?thesis using sub by blast
    qed
  qed
next
  case (2 i p typed)
  have sub: "(Block r m \<in> set (walk i (p @ [Idx (fst ix)]) (snd ix)) \<longrightarrow>
           (\<exists>q. r = p @ q \<and> get_at q (JSeq typed) = Some (JMap m) \<and> map_of m ''repository'' = Some (JStr i))) \<and>
         (Entry k s r \<in> set (walk i (p @ [Idx (fst ix)]) (snd ix)) \<longrightarrow>
           (\<exists>q m'. r = p @ q \<and> get_at q (JSeq typed) = Some (JMap m') \<and> map_of m' k = Some (JStr s) \<and> prefix (i @ '':'') s))"
    if ix: "ix \<in> set (enumerate 0 typed)" for ix
  proof -
    have j: "fst ix < length typed" and e: "snd ix = typed ! fst ix"
      using ix by (auto simp: in_set_enumerate_eq)
    have w: "wf_value (snd ix)" using "2.prems" j e by simp
    note ih = "2.IH"[OF ix w]
    have step: "get_at (Idx (fst ix) # q) (JSeq typed) = get_at q (snd ix)" for q
      by (simp add: j e)
    show ?thesis
    proof (intro conjI impI)
      assume "Block r m \<in> set (walk i (p @ [Idx (fst ix)]) (snd ix))"
      with ih obtain q where "r = (p @ [Idx (fst ix)]) @ q" "get_at q (snd ix) = Some (JMap m)"
        "map_of m ''repository'' = Some (JStr i)" by blast
      then show "\<exists>q. r = p @ q \<and> get_at q (JSeq typed) = Some (JMap m) \<and> map_of m ''repository'' = Some (JStr i)"
        using step[of q] by (intro exI[of _ "Idx (fst ix) # q"]) simp
    next
      assume "Entry k s r \<in> set (walk i (p @ [Idx (fst ix)]) (snd ix))"
      with ih obtain q m' where "r = (p @ [Idx (fst ix)]) @ q" "get_at q (snd ix) = Some (JMap m')"
        "map_of m' k = Some (JStr s)" "prefix (i @ '':'') s" by blast
      then show "\<exists>q m'. r = p @ q \<and> get_at q (JSeq typed) = Some (JMap m') \<and> map_of m' k = Some (JStr s) \<and> prefix (i @ '':'') s"
        using step[of q] by (intro exI[of _ "Idx (fst ix) # q"] exI[of _ m']) simp
    qed
  qed
  show ?case using sub by (auto simp del: get_at.simps)
qed auto

lemma walk_strings:
  assumes "\<forall>x \<in> set xs. \<exists>s. x = JStr s"
  shows "walk i p (JSeq xs) = []"
proof -
  have "walk i (p @ [Idx (fst ix)]) (snd ix) = []" if "ix \<in> set (enumerate 0 xs)" for ix
  proof -
    have "fst ix < length xs" "snd ix = xs ! fst ix"
      using that by (auto simp: in_set_enumerate_eq)
    then have "snd ix \<in> set xs" by simp
    then obtain s where "snd ix = JStr s" using assms by blast
    then show ?thesis by simp
  qed
  then show ?thesis by simp
qed

section \<open>The pattern and the format\<close>

lemma match_Zero: "match_string Zero w = False"
  by (induction w) auto

lemma match_One: "match_string One w = (w = [])"
  by (cases w) (auto simp: match_Zero)

lemma match_Cls: "match_string (Cls cs) w = (\<exists>c. w = [c] \<and> in_class cs c)"
  by (cases w) (auto simp: match_Zero match_One)

lemma match_Alt: "match_string (Alt r s) w = (match_string r w \<or> match_string s w)"
  by (induction w arbitrary: r s) auto

lemma split_first:
  "(\<exists>u v. c # w = u @ v \<and> P u \<and> Q v) =
     ((P [] \<and> Q (c # w)) \<or> (\<exists>u v. w = u @ v \<and> P (c # u) \<and> Q v))"
proof
  assume "\<exists>u v. c # w = u @ v \<and> P u \<and> Q v"
  then obtain u v where e: "c # w = u @ v" and p: "P u" and q: "Q v"
    by blast
  show "(P [] \<and> Q (c # w)) \<or> (\<exists>u v. w = u @ v \<and> P (c # u) \<and> Q v)"
  proof (cases u)
    case Nil
    then show ?thesis using e p q by simp
  next
    case (Cons a u')
    then have "w = u' @ v" "P (c # u')" using e p by auto
    then show ?thesis using q by blast
  qed
next
  assume "(P [] \<and> Q (c # w)) \<or> (\<exists>u v. w = u @ v \<and> P (c # u) \<and> Q v)"
  then show "\<exists>u v. c # w = u @ v \<and> P u \<and> Q v"
  proof
    assume "P [] \<and> Q (c # w)"
    then show ?thesis by (intro exI[of _ "[]"] exI[of _ "c # w"]) simp
  next
    assume "\<exists>u v. w = u @ v \<and> P (c # u) \<and> Q v"
    then obtain u v where "w = u @ v" "P (c # u)" "Q v" by blast
    then show ?thesis by (intro exI[of _ "c # u"] exI[of _ v]) simp
  qed
qed

lemma match_Cat:
  "match_string (Cat r s) w = (\<exists>u v. w = u @ v \<and> match_string r u \<and> match_string s v)"
proof (induction w arbitrary: r s)
  case Nil
  then show ?case by simp
next
  case (Cons c w)
  have "match_string (Cat r s) (c # w) =
        ((match_string r [] \<and> match_string s (c # w)) \<or>
         (\<exists>u v. w = u @ v \<and> match_string r (c # u) \<and> match_string s v))"
    by (auto simp: Cons.IH match_Alt)
  then show ?case
    using split_first[of c w "match_string r" "match_string s"] by simp
qed

lemma match_Star_Cls: "match_string (Star (Cls cs)) w = (\<forall>c \<in> set w. in_class cs c)"
proof (induction w)
  case Nil
  then show ?case by simp
next
  case (Cons c w)
  have "match_string (Star (Cls cs)) (c # w) =
        (\<exists>u v. w = u @ v \<and> match_string (if in_class cs c then One else Zero) u \<and> match_string (Star (Cls cs)) v)"
    by (simp add: match_Cat)
  also have "\<dots> = (in_class cs c \<and> match_string (Star (Cls cs)) w)"
    by (auto simp: match_One match_Zero)
  finally show ?case using Cons.IH by simp
qed

lemma match_Plus_Cls:
  "match_string (Plus (Cls cs)) w = (w \<noteq> [] \<and> (\<forall>c \<in> set w. in_class cs c))"
  by (cases w) (auto simp: Plus_def match_Cat match_One match_Zero match_Star_Cls)

lemma match_Opt: "match_string (Opt r) w = (w = [] \<or> match_string r w)"
  by (auto simp: Opt_def match_Alt match_One)

lemma in_class_single: "in_class [(c, c)] x = (x = c)"
  by (auto simp: in_class_def)

lemma match_Lit: "match_string (Lit c) w = (w = [c])"
  by (auto simp: Lit_def match_Cls in_class_single)

lemma in_digit_class: "in_class digit_class c = is_digit c"
  by (cases c) (auto simp: in_class_def digit_class_def is_digit_def)

lemma in_ident_class: "in_class ident_class c = is_ident_char c"
  by (cases c) (auto simp: in_class_def ident_class_def is_ident_char_def is_digit_def)

lemma match_digits: "match_string (Plus (Cls digit_class)) w = digits w"
  by (simp add: match_Plus_Cls in_digit_class digits_def)

lemma match_ident: "match_string (Plus (Cls ident_class)) w = ident w"
  by (simp add: match_Plus_Cls in_ident_class ident_def)

lemma match_tail:
  "match_string (Opt (Cat (Lit c) (Plus (Cls ident_class)))) w =
     (w = [] \<or> (\<exists>x. w = [c] @ x \<and> ident x))"
  by (auto simp: match_Opt match_Cat match_Lit match_ident)

lemma isValidSemver_unfold:
  "isValidSemver s =
     (\<exists>v r1. s = v @ r1 \<and> (v = [] \<or> v = ''v'') \<and>
       (\<exists>major r2. r1 = major @ r2 \<and> digits major \<and>
         (\<exists>d1 r3. r2 = d1 @ r3 \<and> d1 = ''.'' \<and>
           (\<exists>minor r4. r3 = minor @ r4 \<and> digits minor \<and>
             (\<exists>d2 r5. r4 = d2 @ r5 \<and> d2 = ''.'' \<and>
               (\<exists>patch r6. r5 = patch @ r6 \<and> digits patch \<and>
                 (\<exists>pre build. r6 = pre @ build \<and>
                    (pre = [] \<or> (\<exists>x. pre = ''-'' @ x \<and> ident x)) \<and>
                    (build = [] \<or> (\<exists>y. build = ''+'' @ y \<and> ident y)))))))))"
  unfolding isValidSemver_def semverRegex_def
  by (simp only: match_Cat[of _ _ s] match_Cat[of "Plus _"] match_Cat[of "Lit _"] match_Cat[of "Opt _"] match_Opt[of "Lit _"] match_Lit match_digits match_tail)

lemma isValidSemver_form: "isValidSemver s = semver_form s"
  unfolding isValidSemver_unfold semver_form_def
  by (simp add: ex_simps[symmetric] del: ex_simps)

lemma first_sep_unique:
  "x @ c # y = x' @ c # y' \<Longrightarrow> c \<notin> set x \<Longrightarrow> c \<notin> set x' \<Longrightarrow> x = x' \<and> y = y'"
proof (induction x arbitrary: x')
  case Nil
  then show ?case by (cases x') auto
next
  case (Cons a x)
  then show ?case by (cases x') auto
qed

lemma digit_not_dot: "is_digit c \<Longrightarrow> c \<noteq> CHR ''.''"
  by (auto simp: is_digit_def)

lemma digits_no_dot: "digits w \<Longrightarrow> CHR ''.'' \<notin> set w"
  using digit_not_dot by (auto simp: digits_def)

lemma semver_components:
  assumes "isValidSemver (a @ ''.'' @ b @ ''.'' @ c)"
    and "CHR ''.'' \<notin> set a" and "CHR ''.'' \<notin> set b"
  shows "(digits a \<or> (\<exists>a'. a = ''v'' @ a' \<and> digits a')) \<and> digits b \<and>
         (\<exists>patch r. c = patch @ r \<and> digits patch \<and>
            (r = [] \<or> hd r = CHR ''-'' \<or> hd r = CHR ''+''))"
proof -
  from assms(1) obtain v major minor patch pre build where
    e: "a @ ''.'' @ b @ ''.'' @ c = v @ major @ ''.'' @ minor @ ''.'' @ patch @ pre @ build"
    and v: "v = [] \<or> v = ''v''" and ma: "digits major" and mi: "digits minor"
    and pa: "digits patch"
    and pre: "pre = [] \<or> (\<exists>x. pre = ''-'' @ x \<and> ident x)"
    and build: "build = [] \<or> (\<exists>y. build = ''+'' @ y \<and> ident y)"
    unfolding isValidSemver_form semver_form_def by blast
  have nd: "CHR ''.'' \<notin> set (v @ major)"
    using v digits_no_dot[OF ma] by auto
  have e1: "a @ CHR ''.'' # (b @ ''.'' @ c) = (v @ major) @ CHR ''.'' # (minor @ ''.'' @ patch @ pre @ build)"
    using e by simp
  from first_sep_unique[OF e1 assms(2) nd]
  have a: "a = v @ major" and r: "b @ ''.'' @ c = minor @ ''.'' @ patch @ pre @ build"
    by auto
  have e2: "b @ CHR ''.'' # c = minor @ CHR ''.'' # (patch @ pre @ build)"
    using r by simp
  from first_sep_unique[OF e2 assms(3) digits_no_dot[OF mi]]
  have b: "b = minor" and c: "c = patch @ pre @ build"
    by auto
  have t: "pre @ build = [] \<or> hd (pre @ build) = CHR ''-'' \<or> hd (pre @ build) = CHR ''+''"
    using pre build by auto
  show ?thesis
    using a b c v ma mi pa t by (intro conjI) (auto intro: exI[of _ patch])
qed

lemma digit_not_colon: "is_digit c \<Longrightarrow> c \<noteq> CHR '':''"
  by (auto simp: is_digit_def)

lemma ident_char_not_colon: "is_ident_char c \<Longrightarrow> c \<noteq> CHR '':''"
  by (auto simp: is_ident_char_def is_digit_def)

lemma digits_no_colon: "digits w \<Longrightarrow> CHR '':'' \<notin> set w"
  using digit_not_colon by (auto simp: digits_def)

lemma ident_no_colon: "ident w \<Longrightarrow> CHR '':'' \<notin> set w"
  using ident_char_not_colon by (auto simp: ident_def)

lemma valid_no_colon:
  assumes "isValidSemver v"
  shows "CHR '':'' \<notin> set v"
proof -
  from assms obtain x major minor patch pre build where
    e: "v = x @ major @ ''.'' @ minor @ ''.'' @ patch @ pre @ build"
    and x: "x = [] \<or> x = ''v''" and ma: "digits major" and mi: "digits minor"
    and pa: "digits patch"
    and pre: "pre = [] \<or> (\<exists>y. pre = ''-'' @ y \<and> ident y)"
    and build: "build = [] \<or> (\<exists>y. build = ''+'' @ y \<and> ident y)"
    unfolding isValidSemver_form semver_form_def by blast
  have "CHR '':'' \<notin> set x" using x by auto
  moreover have "CHR '':'' \<notin> set pre" using pre ident_no_colon by auto
  moreover have "CHR '':'' \<notin> set build" using build ident_no_colon by auto
  ultimately show ?thesis
    using digits_no_colon[OF ma] digits_no_colon[OF mi] digits_no_colon[OF pa]
    by (simp add: e)
qed

lemma valid_not_Nil: "isValidSemver v \<Longrightarrow> v \<noteq> []"
  by (auto simp: isValidSemver_unfold digits_def)

section \<open>What the assignments leave behind\<close>

lemma assign_JStr_iff: "(assign r k x v = JStr s) = (v = JStr s)"
  by (induction r k x v rule: assign.induct) auto

lemma in_set_updateD: "kv \<in> set (AList.update k v al) \<Longrightarrow> kv = (k, v) \<or> kv \<in> set al"
  by (induction al) (auto split: if_splits)

lemma wf_value_assign: "wf_value t \<Longrightarrow> wf_value (assign q k (JStr x) t)"
proof (induction q k "JStr x :: 'a jvalue" t rule: assign.induct)
  case (1 k kvs)
  then show ?case by (auto simp: distinct_update dest!: in_set_updateD)
next
  case (2 a p k kvs)
  have "wf_value (snd kv)" if "kv \<in> set (AList.map_entry a (assign p k (JStr x)) kvs)" for kv
    using that 2 by (induction kvs) (auto split: if_splits)
  then show ?case using 2 by (simp add: distinct_map_entry)
next
  case (3 i p k xs)
  then show ?case by (auto dest!: set_update_subset_insert[THEN subsetD])
qed auto

lemma get_at_assign:
  assumes "get_at p (assign q k (JStr x) t) = Some v'" and "\<forall>s. v' \<noteq> JStr s"
  shows "\<exists>v. get_at p t = Some v \<and>
             v' = (if prefix p q then assign (drop (length p) q) k (JStr x) v else v)"
  using assms
proof (induction p arbitrary: q t)
  case Nil
  then show ?case by simp
next
  case (Cons s p)
  show ?case
  proof (cases q)
    case Nil
    show ?thesis
    proof (cases t)
      case (JMap kvs)
      then show ?thesis using Cons.prems Nil
        by (cases s) (auto simp: update_conv' split: if_splits option.splits dest: get_at_JStr)
    qed (use Cons.prems Nil in auto)
  next
    case q: (Cons s' q')
    show ?thesis
    proof (cases t)
      case (JMap kvs)
      show ?thesis
      proof (cases s')
        case (Key a)
        show ?thesis
        proof (cases s)
          case b: (Key b)
          show ?thesis
          proof (cases "b = a")
            case True
            from Cons.prems(1) obtain v0 where v0: "map_of kvs a = Some v0"
              and g: "get_at p (assign q' k (JStr x) v0) = Some v'"
              by (auto simp: q JMap Key b True map_of_map_entry split: option.splits)
            from Cons.IH[OF g Cons.prems(2)] show ?thesis
              by (cases "prefix p q'") (auto simp: q JMap Key b True v0)
          next
            case False
            then show ?thesis using Cons.prems(1)
              by (auto simp: q JMap Key b map_of_map_entry split: option.splits)
          qed
        qed (use Cons.prems JMap q Key in auto)
      qed (use Cons.prems JMap q in auto)
    next
      case (JSeq xs)
      show ?thesis
      proof (cases s')
        case (Idx i)
        show ?thesis
        proof (cases s)
          case j: (Idx j)
          show ?thesis
          proof (cases "j = i \<and> i < length xs")
            case True
            from Cons.prems(1) have g: "get_at p (assign q' k (JStr x) (xs ! i)) = Some v'"
              by (auto simp: q JSeq Idx j True split: if_splits)
            from Cons.IH[OF g Cons.prems(2)] show ?thesis
              using True by (cases "prefix p q'") (auto simp: q JSeq Idx j)
          next
            case False
            then show ?thesis using Cons.prems(1)
              by (auto simp: q JSeq Idx j split: if_splits)
          qed
        qed (use Cons.prems JSeq q Idx in \<open>auto split: if_splits\<close>)
      qed (use Cons.prems JSeq q in auto)
    qed (use Cons.prems q in auto)
  qed
qed

lemma field_str_map_entry:
  "field_str (AList.map_entry a (assign r k x) m) key = field_str m key"
  by (auto simp: field_str_def map_of_map_entry assign_JStr_iff split: option.splits jvalue.splits)

lemma assign_JMap_fields:
  "assign r k (JStr x) v = JMap m' \<Longrightarrow>
     \<exists>m. v = JMap m \<and>
       (\<forall>key. field_str m' key = (if r = [] \<and> key = k then Some x else field_str m key))"
proof (induction r k "JStr x :: 'a jvalue" v rule: assign.induct)
  case (1 k kvs)
  then show ?case by (auto simp: field_str_def update_conv')
next
  case (2 a p k kvs)
  then show ?case by (auto simp: field_str_map_entry)
qed (auto split: if_splits)

lemma assign_JSeq_items:
  "assign r k (JStr x) v = JSeq xs' \<Longrightarrow>
     \<exists>xs. v = JSeq xs \<and> length xs' = length xs \<and>
       (\<forall>j s. j < length xs \<longrightarrow> (xs' ! j = JStr s) = (xs ! j = JStr s))"
proof (induction r k "JStr x :: 'a jvalue" v rule: assign.induct)
  case (3 i p k xs)
  then show ?case by (auto simp: nth_list_update assign_JStr_iff split: if_splits)
qed auto

lemma get_at_assign_JMap:
  assumes "get_at p (assign q k (JStr x) t) = Some (JMap m')"
  shows "\<exists>m. get_at p t = Some (JMap m) \<and>
           (\<forall>key. field_str m' key = (if p = q \<and> key = k then Some x else field_str m key))"
proof -
  from get_at_assign[OF assms] obtain v where g: "get_at p t = Some v"
    and v: "JMap m' = (if prefix p q then assign (drop (length p) q) k (JStr x) v else v)"
    by auto
  show ?thesis
  proof (cases "prefix p q")
    case True
    then have d: "(drop (length p) q = []) = (p = q)"
      by (auto simp: prefix_def)
    from v True have "assign (drop (length p) q) k (JStr x) v = JMap m'" by simp
    from assign_JMap_fields[OF this] show ?thesis using g d by auto
  next
    case False
    then have "p \<noteq> q" by auto
    then show ?thesis using v g False by auto
  qed
qed

lemma get_at_assign_JSeq:
  assumes "get_at p (assign q k (JStr x) t) = Some (JSeq xs')"
  shows "\<exists>xs. get_at p t = Some (JSeq xs) \<and> length xs' = length xs \<and>
           (\<forall>j s. j < length xs \<longrightarrow> (xs' ! j = JStr s) = (xs ! j = JStr s))"
proof -
  from get_at_assign[OF assms] obtain v where g: "get_at p t = Some v"
    and v: "JSeq xs' = (if prefix p q then assign (drop (length p) q) k (JStr x) v else v)"
    by auto
  show ?thesis
  proof (cases "prefix p q")
    case True
    with v have "assign (drop (length p) q) k (JStr x) v = JSeq xs'" by simp
    from assign_JSeq_items[OF this] show ?thesis using g by auto
  next
    case False
    then show ?thesis using v g by auto
  qed
qed

lemma foldl_bump_match_run:
  "foldl (bump_match i v d) st ms = run_actions (map (bump_action i v d) ms) st"
  by (induction ms arbitrary: st) (simp_all add: run_actions_def bump_match_def)

lemma run_actions_Cons: "run_actions (a # as) st = run_actions as (apply_action a st)"
  by (simp add: run_actions_def)

lemma run_actions_Nil: "run_actions [] st = st"
  by (simp add: run_actions_def)

lemma get_at_apply_action_JMap:
  assumes "get_at p (fst (apply_action a st)) = Some (JMap m')"
  shows "\<exists>m. get_at p (fst st) = Some (JMap m) \<and>
           (\<forall>key. field_str m' key = (case last_write p key [a] of Some y \<Rightarrow> Some y | None \<Rightarrow> field_str m key))"
proof (cases a)
  case (Bumped q k x)
  obtain t u where st: "st = (t, u)" by (cases st)
  from assms have "get_at p (assign q k (JStr x) t) = Some (JMap m')"
    by (simp add: Bumped st)
  from get_at_assign_JMap[OF this] show ?thesis
    by (auto simp: Bumped st)
qed (use assms in \<open>cases st; auto\<close>)+

lemma get_at_run_actions_JMap:
  "get_at p (fst (run_actions as st)) = Some (JMap m') \<Longrightarrow>
     \<exists>m. get_at p (fst st) = Some (JMap m) \<and>
       (\<forall>key. field_str m' key =
          (case last_write p key as of Some y \<Rightarrow> Some y | None \<Rightarrow> field_str m key))"
proof (induction as arbitrary: st)
  case Nil
  then show ?case by (simp add: run_actions_Nil)
next
  case (Cons a as)
  from Cons.prems have "get_at p (fst (run_actions as (apply_action a st))) = Some (JMap m')"
    by (simp add: run_actions_Cons)
  from Cons.IH[OF this] obtain m1 where g1: "get_at p (fst (apply_action a st)) = Some (JMap m1)"
    and f1: "\<And>key. field_str m' key =
          (case last_write p key as of Some y \<Rightarrow> Some y | None \<Rightarrow> field_str m1 key)"
    by blast
  from get_at_apply_action_JMap[OF g1] obtain m where g: "get_at p (fst st) = Some (JMap m)"
    and f: "\<And>key. field_str m1 key =
          (case last_write p key [a] of Some y \<Rightarrow> Some y | None \<Rightarrow> field_str m key)"
    by blast
  have "field_str m' key =
          (case last_write p key (a # as) of Some y \<Rightarrow> Some y | None \<Rightarrow> field_str m key)" for key
    using f1[of key] f[of key] by (auto split: option.splits action.splits if_splits)
  then show ?case using g by blast
qed

lemma get_at_apply_action_JSeq:
  assumes "get_at p (fst (apply_action a st)) = Some (JSeq xs')"
  shows "\<exists>xs. get_at p (fst st) = Some (JSeq xs) \<and> length xs' = length xs \<and>
           (\<forall>j s. j < length xs \<longrightarrow> (xs' ! j = JStr s) = (xs ! j = JStr s))"
proof (cases a)
  case (Bumped q k x)
  obtain t u where st: "st = (t, u)" by (cases st)
  from assms have "get_at p (assign q k (JStr x) t) = Some (JSeq xs')"
    by (simp add: Bumped st)
  from get_at_assign_JSeq[OF this] show ?thesis
    by (auto simp: Bumped st)
qed (use assms in \<open>cases st; auto\<close>)+

lemma get_at_run_actions_JSeq:
  "get_at p (fst (run_actions as st)) = Some (JSeq xs') \<Longrightarrow>
     \<exists>xs. get_at p (fst st) = Some (JSeq xs) \<and> length xs' = length xs \<and>
       (\<forall>j s. j < length xs \<longrightarrow> (xs' ! j = JStr s) = (xs ! j = JStr s))"
proof (induction as arbitrary: st)
  case Nil
  then show ?case by (simp add: run_actions_Nil)
next
  case (Cons a as)
  from Cons.prems have "get_at p (fst (run_actions as (apply_action a st))) = Some (JSeq xs')"
    by (simp add: run_actions_Cons)
  from Cons.IH[OF this] obtain xs1 where g1: "get_at p (fst (apply_action a st)) = Some (JSeq xs1)"
    and l1: "length xs' = length xs1"
    and f1: "\<And>j s. j < length xs1 \<Longrightarrow> (xs' ! j = JStr s) = (xs1 ! j = JStr s)"
    by blast
  from get_at_apply_action_JSeq[OF g1] obtain xs where g: "get_at p (fst st) = Some (JSeq xs)"
    and l: "length xs1 = length xs"
    and f: "\<And>j s. j < length xs \<Longrightarrow> (xs1 ! j = JStr s) = (xs ! j = JStr s)"
    by blast
  show ?case using g l l1 f f1 by auto
qed

lemma assign_JMap_is_JMap: "\<exists>kvs'. assign q k x (JMap kvs) = JMap kvs'"
  by (cases "(q, k, x, JMap kvs)" rule: assign.cases) auto

lemma apply_action_root:
  "\<exists>kvs. fst st = JMap kvs \<Longrightarrow> \<exists>kvs'. fst (apply_action a st) = JMap kvs'"
  using assign_JMap_is_JMap by (cases a; cases st) auto

lemma run_actions_root:
  "\<exists>kvs. fst st = JMap kvs \<Longrightarrow> \<exists>kvs'. fst (run_actions as st) = JMap kvs'"
proof (induction as arbitrary: st)
  case Nil
  then show ?case by (simp add: run_actions_Nil)
next
  case (Cons a as)
  show ?case
    unfolding run_actions_Cons by (rule Cons.IH[OF apply_action_root[OF Cons.prems]])
qed

lemma apply_action_wf: "wf_value (fst st) \<Longrightarrow> wf_value (fst (apply_action a st))"
  by (cases a; cases st) (auto simp: wf_value_assign)

lemma run_actions_wf: "wf_value (fst st) \<Longrightarrow> wf_value (fst (run_actions as st))"
  by (induction as arbitrary: st) (auto simp: run_actions_Nil run_actions_Cons apply_action_wf)

lemma universal_tree:
  "JMap (values_of (BumpTagInValuesUniversal vs i v d)) =
     fst (run_actions (map (bump_action i v d) (findImageBlocksUniversal vs i)) (JMap vs, False))"
proof -
  let ?st = "run_actions (map (bump_action i v d) (findImageBlocksUniversal vs i)) (JMap vs, False)"
  obtain kvs' where k: "fst ?st = JMap kvs'"
    using run_actions_root[of "(JMap vs, False)"] by auto
  show ?thesis
  proof (cases "findImageBlocksUniversal vs i = []")
    case True
    then show ?thesis
      by (simp add: values_of_def BumpTagInValuesUniversal_def run_actions_Nil)
  next
    case False
    then show ?thesis using k
      by (auto simp: values_of_def BumpTagInValuesUniversal_def foldl_bump_match_run split: prod.splits)
  qed
qed

lemma last_write_Some: "last_write p key as = Some y \<Longrightarrow> Bumped p key y \<in> set as"
  by (induction as) (auto split: option.splits action.splits if_splits)

lemma last_write_None: "last_write p key as = None \<Longrightarrow> Bumped p key y \<notin> set as"
  by (induction as) (auto split: option.splits action.splits if_splits)

lemma string_at_field_str: "string_at m k = (case field_str m k of Some s \<Rightarrow> s | None \<Rightarrow> [])"
  by (auto simp: string_at_def field_str_def split: option.splits jvalue.splits)

lemma field_str_Some: "(field_str m k = Some s) = (map_of m k = Some (JStr s))"
  by (auto simp: field_str_def split: option.splits jvalue.splits)

lemma action_of_block:
  "map_of m0 ''repository'' = Some (JStr i) \<Longrightarrow> isValidSemver v \<Longrightarrow>
     bump_action i v False (Block r m0) =
       (if string_at m0 ''tag'' = v then SkipCurrent else Bumped r ''tag'' v)"
  by (simp add: structured_case_def Let_def)

lemma action_of_entry:
  "prefix (i @ '':'') s \<Longrightarrow> isValidSemver v \<Longrightarrow>
     bump_action i v False (Entry k s r) =
       (if last (split_on CHR '':'' s) = v then SkipCurrent else Bumped r k (i @ '':'' @ v))"
  by (simp add: aspire_case_def Let_def)

lemma action_of_block_bump:
  "map_of m0 ''repository'' = Some (JStr i) \<Longrightarrow> isValidSemver v \<Longrightarrow>
     string_at m0 ''tag'' \<noteq> v \<Longrightarrow> bump_action i v False (Block r m0) = Bumped r ''tag'' v"
  by (simp add: structured_case_def Let_def)

lemma action_of_entry_bump:
  "prefix (i @ '':'') s \<Longrightarrow> isValidSemver v \<Longrightarrow> last (split_on CHR '':'' s) \<noteq> v \<Longrightarrow>
     bump_action i v False (Entry k s r) = Bumped r k (i @ '':'' @ v)"
  by (simp add: aspire_case_def Let_def)

section \<open>The loop reads what the walk saw\<close>

text \<open>
  When the loop reaches a block, the assignments made so far belong to matches that
  the walk found earlier, and none of those refers to the block or to a mapping
  inside it.  So if the reference of the block still leads to a mapping of the tree,
  that mapping is the one recorded with the match.
\<close>

lemma block_first_Nil: "block_first []"
  by (simp add: block_first_def)

lemma block_first_append:
  assumes "block_first A" and "block_first B"
    and "\<And>p m x. Block p m \<in> set B \<Longrightarrow> x \<in> set A \<Longrightarrow> \<not> prefix p (ref x)"
  shows "block_first (A @ B)"
  unfolding block_first_def
proof (intro allI impI)
  fix xs p m ys
  assume e: "A @ B = xs @ Block p m # ys"
  then consider us where "A = xs @ us" "us @ B = Block p m # ys"
    | us where "A @ us = xs" "B = us @ Block p m # ys"
    by (auto simp: append_eq_append_conv2)
  then show "\<forall>x \<in> set xs. \<not> prefix p (ref x)"
  proof cases
    case 1
    show ?thesis
    proof (cases us)
      case Nil
      with 1 have "A = xs" "Block p m \<in> set B" by auto
      then show ?thesis using assms(3) by blast
    next
      case (Cons u us')
      with 1 have "A = xs @ Block p m # us'" by auto
      then show ?thesis using assms(1) unfolding block_first_def by blast
    qed
  next
    case 2
    have a: "\<forall>x \<in> set A. \<not> prefix p (ref x)"
      using assms(3)[of p m] 2(2) by auto
    have b: "\<forall>x \<in> set us. \<not> prefix p (ref x)"
      using assms(2) 2(2) unfolding block_first_def by blast
    show ?thesis using a b 2(1) by auto
  qed
qed

lemma in_walk_JSeq:
  "x \<in> set (walk i p (JSeq typed)) \<longleftrightarrow>
     (\<exists>ix \<in> set (enumerate 0 typed). x \<in> set (walk i (p @ [Idx (fst ix)]) (snd ix)))"
  by auto

lemma ref_walk: "x \<in> set (walk i q v) \<Longrightarrow> prefix q (ref x)"
proof (induction i q v rule: walk.induct)
  case (1 i p typed)
  have ih: "prefix (p @ [Key (fst kv)]) (ref x)"
    if "kv \<in> set typed" "x \<in> set (walk i (p @ [Key (fst kv)]) (snd kv))" for kv
  proof (cases "snd kv")
    case (JStr s)
    then show ?thesis using that by simp
  qed (use "1.IH" that in auto)
  from "1.prems" consider "x = Block p typed"
    | kv s where "kv \<in> set typed" "x = Entry (fst kv) s p"
    | kv where "kv \<in> set typed" "x \<in> set (walk i (p @ [Key (fst kv)]) (snd kv))"
    unfolding in_walk_JMap by blast
  then show ?case
  proof cases
    case 3
    from ih[OF 3] show ?thesis by (rule append_prefixD)
  qed auto
next
  case (2 i p typed)
  from "2.prems" obtain ix where ix: "ix \<in> set (enumerate 0 typed)"
    "x \<in> set (walk i (p @ [Idx (fst ix)]) (snd ix))"
    unfolding in_walk_JSeq by blast
  from "2.IH"[OF ix] show ?case by (rule append_prefixD)
qed auto

lemma no_block_block_first:
  assumes "\<And>p m. Block p m \<notin> set ms"
  shows "block_first ms"
  unfolding block_first_def
proof (intro allI impI)
  fix xs p m ys
  assume "ms = xs @ Block p m # ys"
  then have "Block p m \<in> set ms" by simp
  with assms show "\<forall>x \<in> set xs. \<not> prefix p (ref x)" by blast
qed

lemma prefix_step_apart:
  assumes "prefix (q @ [a]) p" and "a \<noteq> b"
  shows "\<not> prefix p q" and "\<not> prefix p (q @ b # r)"
proof -
  from assms(1) obtain z where p: "p = q @ a # z" by (auto simp: prefix_def)
  show "\<not> prefix p q" by (auto simp: p prefix_def)
  show "\<not> prefix p (q @ b # r)" using assms(2) by (auto simp: p prefix_def)
qed

lemma concat_block_first:
  assumes "distinct (map fst L)"
    and "\<And>e. e \<in> set L \<Longrightarrow> block_first (H e)"
    and "\<And>e x. e \<in> set L \<Longrightarrow> x \<in> set (H e) \<Longrightarrow> ref x = q \<or> prefix (q @ [stp (fst e)]) (ref x)"
    and "\<And>e p m. e \<in> set L \<Longrightarrow> Block p m \<in> set (H e) \<Longrightarrow> prefix (q @ [stp (fst e)]) p"
    and "inj stp"
  shows "block_first (concat (map H L))"
  using assms(1,2,3,4)
proof (induction L)
  case Nil
  then show ?case by (simp add: block_first_Nil)
next
  case (Cons e L)
  have rest: "block_first (concat (map H L))"
    using Cons by auto
  have apart: "\<not> prefix p (ref x)"
    if b: "Block p m \<in> set (concat (map H L))" and x: "x \<in> set (H e)" for p m x
  proof -
    from b obtain e' where e': "e' \<in> set L" "Block p m \<in> set (H e')" by auto
    have in_L: "fst e' \<in> fst ` set L"
      using e'(1) by (rule imageI)
    have out_L: "fst e \<notin> fst ` set L"
      using Cons.prems(1) by simp
    have "fst e' \<noteq> fst e"
    proof
      assume "fst e' = fst e"
      with in_L out_L show False by simp
    qed
    then have ne: "stp (fst e') \<noteq> stp (fst e)"
      using assms(5) by (simp add: inj_eq)
    have pp: "prefix (q @ [stp (fst e')]) p"
      using Cons.prems(4)[of e' p m] e' by simp
    from Cons.prems(3)[of e x] x consider "ref x = q" | "prefix (q @ [stp (fst e)]) (ref x)"
      by auto
    then show ?thesis
    proof cases
      case 1
      then show ?thesis using prefix_step_apart(1)[OF pp ne] by simp
    next
      case 2
      then obtain z where "ref x = q @ stp (fst e) # z" by (auto simp: prefix_def)
      then show ?thesis using prefix_step_apart(2)[OF pp ne] by simp
    qed
  qed
  have "block_first (H e @ concat (map H L))"
    using Cons.prems(2)[of e] rest apart by (intro block_first_append) auto
  then show ?case by simp
qed


lemma prefix_longer: "prefix (q @ [a]) p \<Longrightarrow> \<not> prefix p q"
  by (auto simp: prefix_def)

lemma walk_block_first: "wf_value v \<Longrightarrow> block_first (walk i q v)"
proof (induction i q v rule: walk.induct)
  case (1 i p typed)
  define F where "F = (\<lambda>kv :: string \<times> 'a jvalue.
         (case snd kv of
            JStr strVal \<Rightarrow>
              if prefix (i @ '':'') strVal then [Entry (fst kv) strVal p]
              else walk i (p @ [Key (fst kv)]) (snd kv)
          | _ \<Rightarrow> walk i (p @ [Key (fst kv)]) (snd kv)))"
  have w: "walk i p (JMap typed) =
      (if map_of typed ''repository'' = Some (JStr i) then [Block p typed] else [])
      @ concat (map F typed)"
    by (simp add: F_def)
  have F: "(\<exists>s. F kv = [Entry (fst kv) s p]) \<or>
           (F kv = walk i (p @ [Key (fst kv)]) (snd kv) \<and>
            (\<forall>s. snd kv = JStr s \<longrightarrow> \<not> prefix (i @ '':'') s))" for kv
    by (cases "snd kv") (auto simp: F_def)
  have d: "distinct (map fst typed)"
    using "1.prems" by simp
  have bf: "block_first (F kv)" if kv: "kv \<in> set typed" for kv
  proof -
    have wk: "wf_value (snd kv)" using "1.prems" kv by simp
    from F[of kv] show ?thesis
    proof
      assume "\<exists>s. F kv = [Entry (fst kv) s p]"
      then show ?thesis by (auto intro: no_block_block_first)
    next
      assume a: "F kv = walk i (p @ [Key (fst kv)]) (snd kv) \<and>
            (\<forall>s. snd kv = JStr s \<longrightarrow> \<not> prefix (i @ '':'') s)"
      have "block_first (walk i (p @ [Key (fst kv)]) (snd kv))"
      proof (cases "snd kv")
        case (JStr s)
        then show ?thesis by (simp add: block_first_Nil)
      qed (use "1.IH" kv wk in auto)
      with a show ?thesis by simp
    qed
  qed
  have refs: "ref x = p \<or> prefix (p @ [Key (fst kv)]) (ref x)" if "x \<in> set (F kv)" for kv x
    using F[of kv] that ref_walk[of x i "p @ [Key (fst kv)]" "snd kv"] by auto
  have blocks: "prefix (p @ [Key (fst kv)]) r" if "Block r m \<in> set (F kv)" for kv r m
    using F[of kv] that ref_walk[of "Block r m" i "p @ [Key (fst kv)]" "snd kv"] by auto
  have c: "block_first (concat (map F typed))"
    by (rule concat_block_first[where q = p and stp = Key, OF d bf refs blocks]) (auto simp: inj_def)
  have h: "block_first (if map_of typed ''repository'' = Some (JStr i) then [Block p typed] else [])"
    by (auto simp: block_first_def Cons_eq_append_conv)
  have apart: "\<not> prefix r (ref x)"
    if "Block r m \<in> set (concat (map F typed))"
      "x \<in> set (if map_of typed ''repository'' = Some (JStr i) then [Block p typed] else [])"
    for r m x
  proof -
    from that(1) obtain kv where "Block r m \<in> set (F kv)" by auto
    from blocks[OF this] have "\<not> prefix r p" by (rule prefix_longer)
    moreover have "ref x = p" using that(2) by (auto split: if_splits)
    ultimately show ?thesis by simp
  qed
  show ?case unfolding w by (rule block_first_append[OF h c apart])
next
  case (2 i p typed)
  define G where "G = (\<lambda>ix :: nat \<times> 'a jvalue. walk i (p @ [Idx (fst ix)]) (snd ix))"
  have w: "walk i p (JSeq typed) = concat (map G (enumerate 0 typed))"
    by (simp add: G_def)
  have d: "distinct (map fst (enumerate 0 typed))"
    by simp
  have bf: "block_first (G ix)" if ix: "ix \<in> set (enumerate 0 typed)" for ix
  proof -
    have "fst ix < length typed" "snd ix = typed ! fst ix"
      using ix by (auto simp: in_set_enumerate_eq)
    then have "snd ix \<in> set typed" by simp
    then have "wf_value (snd ix)" using "2.prems" by simp
    from "2.IH"[OF ix this] show ?thesis by (simp add: G_def)
  qed
  have refs: "ref x = p \<or> prefix (p @ [Idx (fst ix)]) (ref x)" if "x \<in> set (G ix)" for ix x
    using that ref_walk[of x i "p @ [Idx (fst ix)]" "snd ix"] by (simp add: G_def)
  have blocks: "prefix (p @ [Idx (fst ix)]) r" if "Block r m \<in> set (G ix)" for ix r m
    using that ref_walk[of "Block r m" i "p @ [Idx (fst ix)]" "snd ix"] by (simp add: G_def)
  show ?case
    unfolding w
    by (rule concat_block_first[where q = p and stp = Idx, OF d bf refs blocks]) (auto simp: inj_def)
qed (auto simp: block_first_Nil)

lemma get_at_run_actions_apart:
  "get_at p (fst (run_actions as st)) = Some v' \<Longrightarrow> \<forall>s. v' \<noteq> JStr s \<Longrightarrow>
     (\<And>q k y. Bumped q k y \<in> set as \<Longrightarrow> \<not> prefix p q) \<Longrightarrow>
     get_at p (fst st) = Some v'"
proof (induction as arbitrary: st)
  case Nil
  then show ?case by (simp add: run_actions_Nil)
next
  case (Cons a as)
  have "get_at p (fst (run_actions as (apply_action a st))) = Some v'"
    using Cons.prems(1) by (simp add: run_actions_Cons)
  moreover have "\<not> prefix p q" if "Bumped q k y \<in> set as" for q k y
    using Cons.prems(3)[of q k y] that by simp
  ultimately have g: "get_at p (fst (apply_action a st)) = Some v'"
    using Cons.IH[of "apply_action a st"] Cons.prems(2) by blast
  show ?case
  proof (cases a)
    case (Bumped q k y)
    obtain t u where st: "st = (t, u)" by (cases st)
    from g have "get_at p (assign q k (JStr y) t) = Some v'"
      by (simp add: Bumped st)
    from get_at_assign[OF this Cons.prems(2)] Cons.prems(3)[of q k y]
    show ?thesis by (auto simp: Bumped st)
  qed (use g in \<open>cases st; auto\<close>)+
qed

lemma block_read_is_current:
  assumes wf: "wf_value (JMap vs)"
    and split: "findImageBlocksUniversal vs imageName = before @ Block p m # after"
    and live: "get_at p (fst (foldl (bump_match imageName newVersion dryRun) (JMap vs, False) before))
                 = Some (JMap m')"
  shows "m' = m"
proof -
  define ms where "ms = walk imageName [] (JMap vs)"
  have ms: "ms = before @ Block p m # after"
    using split by (simp add: ms_def findImageBlocksUniversal_def)
  have bf: "block_first ms"
    unfolding ms_def using wf by (rule walk_block_first)
  have apart: "\<not> prefix p (ref x)" if "x \<in> set before" for x
    using bf ms that unfolding block_first_def by blast
  have writes: "\<not> prefix p q"
    if "Bumped q k y \<in> set (map (bump_action imageName newVersion dryRun) before)" for q k y
  proof -
    from that obtain x where x: "x \<in> set before"
      and a: "bump_action imageName newVersion dryRun x = Bumped q k y"
      by auto
    have xm: "x \<in> set (walk imageName [] (JMap vs))"
      using x ms unfolding ms_def by simp
    have "q = ref x"
    proof (cases x)
      case (Block r m0)
      have "map_of m0 ''repository'' = Some (JStr imageName)"
        using walk_sound[OF wf, of r m0 imageName "[]"] xm Block by auto
      then show ?thesis using a Block
        by (auto simp: structured_case_def Let_def split: if_splits)
    next
      case (Entry k' s r)
      then show ?thesis using a
        by (auto simp: aspire_case_def Let_def split: if_splits)
    qed
    then show ?thesis using apart[OF x] by simp
  qed
  have "get_at p (fst (run_actions (map (bump_action imageName newVersion dryRun) before)
      (JMap vs, False))) = Some (JMap m')"
    using live by (simp add: foldl_bump_match_run)
  from get_at_run_actions_apart[OF this _ writes]
  have "get_at p (JMap vs) = Some (JMap m')" by simp
  moreover have "Block p m \<in> set (walk imageName [] (JMap vs))"
    using ms unfolding ms_def by simp
  then have "get_at p (JMap vs) = Some (JMap m)"
    using walk_sound[OF wf, of p m imageName "[]"] by (auto simp del: walk.simps)
  ultimately show ?thesis by simp
qed

section \<open>Claims\<close>

text \<open>
  C1.  For every values tree, image name, new version and dry-run flag,
  \<^verbatim>\<open>BumpTagInValuesUniversal\<close> returns a nil error, and its flag is true exactly when
  some match of the matcher reached an update, applied or simulated.  So the flag is
  false when the match list is empty, and when every match was skipped as already
  current or as an invalid version.
\<close>

theorem universal_changed_iff_some_update:
  "error_of (BumpTagInValuesUniversal vs imageName newVersion dryRun) = None \<and>
   changed_of (BumpTagInValuesUniversal vs imageName newVersion dryRun) =
     (\<exists>m \<in> set (findImageBlocksUniversal vs imageName).
        is_update (bump_action imageName newVersion dryRun m)) \<and>
   (findImageBlocksUniversal vs imageName = [] \<longrightarrow>
      \<not> changed_of (BumpTagInValuesUniversal vs imageName newVersion dryRun)) \<and>
   ((\<forall>m \<in> set (findImageBlocksUniversal vs imageName).
        is_skip (bump_action imageName newVersion dryRun m)) \<longrightarrow>
      \<not> changed_of (BumpTagInValuesUniversal vs imageName newVersion dryRun))"
proof -
  have k: "is_skip a \<Longrightarrow> \<not> is_update a" for a :: action
    by (cases a) auto
  show ?thesis
    using k by (auto simp: changed_of_universal error_of_universal)
qed

theorem universal_changed_iff_some_update_witness:
  "findImageBlocksUniversal example_values ''ghcr.io/my-org/api'' =
     [Entry ''api'' ''ghcr.io/my-org/api:1.3.8'' [Key ''images'']] \<and>
   is_skip (bump_action ''ghcr.io/my-org/api'' ''1.3.8'' False
     (Entry ''api'' ''ghcr.io/my-org/api:1.3.8'' [Key ''images''] :: nat match)) \<and>
   \<not> changed_of (BumpTagInValuesUniversal example_values ''ghcr.io/my-org/api'' ''1.3.8'' False) \<and>
   is_update (bump_action ''ghcr.io/my-org/api'' ''1.3.9'' False
     (Entry ''api'' ''ghcr.io/my-org/api:1.3.8'' [Key ''images''] :: nat match)) \<and>
   changed_of (BumpTagInValuesUniversal example_values ''ghcr.io/my-org/api'' ''1.3.9'' False) \<and>
   findImageBlocksUniversal example_values ''nginx'' = [] \<and>
   \<not> changed_of (BumpTagInValuesUniversal example_values ''nginx'' ''1.3.8'' False)"
proof -
  have f: "findImageBlocksUniversal example_values ''ghcr.io/my-org/api'' =
      [Entry ''api'' ''ghcr.io/my-org/api:1.3.8'' [Key ''images'']]"
    by code_simp
  have s: "is_skip (bump_action ''ghcr.io/my-org/api'' ''1.3.8'' False
      (Entry ''api'' ''ghcr.io/my-org/api:1.3.8'' [Key ''images''] :: nat match))"
    by code_simp
  have u: "is_update (bump_action ''ghcr.io/my-org/api'' ''1.3.9'' False
      (Entry ''api'' ''ghcr.io/my-org/api:1.3.8'' [Key ''images''] :: nat match))"
    by code_simp
  have n: "findImageBlocksUniversal example_values ''nginx'' = []"
    by code_simp
  have a: "\<forall>m \<in> set (findImageBlocksUniversal example_values ''ghcr.io/my-org/api'').
           is_skip (bump_action ''ghcr.io/my-org/api'' ''1.3.8'' False m)"
    unfolding f using s by simp
  have c: "\<not> changed_of
      (BumpTagInValuesUniversal example_values ''ghcr.io/my-org/api'' ''1.3.8'' False)"
    using a universal_changed_iff_some_update
      [of example_values "''ghcr.io/my-org/api''" "''1.3.8''" False]
    by blast
  have e: "\<exists>m \<in> set (findImageBlocksUniversal example_values ''ghcr.io/my-org/api'').
           is_update (bump_action ''ghcr.io/my-org/api'' ''1.3.9'' False m)"
    unfolding f using u by simp
  have b: "changed_of
      (BumpTagInValuesUniversal example_values ''ghcr.io/my-org/api'' ''1.3.9'' False)"
    using e universal_changed_iff_some_update
      [of example_values "''ghcr.io/my-org/api''" "''1.3.9''" False]
    by blast
  have d: "\<not> changed_of (BumpTagInValuesUniversal example_values ''nginx'' ''1.3.8'' False)"
    using n universal_changed_iff_some_update[of example_values "''nginx''" "''1.3.8''" False]
    by blast
  show ?thesis
    using f s u n c b d by blast
qed

text \<open>
  C2.  A dry run of \<^verbatim>\<open>BumpTagInValuesUniversal\<close> returns the values as they were, and
  its flag is the flag of the same call without the dry run.
\<close>

theorem dry_run_leaves_values:
  "values_of (BumpTagInValuesUniversal vs imageName newVersion True) = vs \<and>
   changed_of (BumpTagInValuesUniversal vs imageName newVersion True) =
     changed_of (BumpTagInValuesUniversal vs imageName newVersion False)"
proof
  show "values_of (BumpTagInValuesUniversal vs imageName newVersion True) = vs"
    using fst_foldl_dry[of imageName newVersion "(JMap vs, False)"
        "findImageBlocksUniversal vs imageName"]
    by (auto simp: values_of_def BumpTagInValuesUniversal_def Let_def split: prod.splits)
  show "changed_of (BumpTagInValuesUniversal vs imageName newVersion True) =
        changed_of (BumpTagInValuesUniversal vs imageName newVersion False)"
    unfolding changed_of_universal
    by (simp add: is_update_dry_irrelevant[of imageName newVersion True _ False])
qed

theorem dry_run_leaves_values_witness:
  "values_of (BumpTagInValuesUniversal example_values ''ghcr.io/my-org/api'' ''1.3.9'' True) = example_values \<and>
   changed_of (BumpTagInValuesUniversal example_values ''ghcr.io/my-org/api'' ''1.3.9'' True) \<and>
   values_of (BumpTagInValuesUniversal example_values ''ghcr.io/my-org/api'' ''1.3.9'' False) \<noteq> example_values"
proof -
  have c: "changed_of (BumpTagInValuesUniversal example_values ''ghcr.io/my-org/api'' ''1.3.9'' False)"
    by code_simp
  have d: "values_of (BumpTagInValuesUniversal example_values ''ghcr.io/my-org/api'' ''1.3.9'' False) \<noteq> example_values"
    by code_simp
  show ?thesis
    using c d dry_run_leaves_values[of example_values "''ghcr.io/my-org/api''" "''1.3.9''"] by simp
qed

text \<open>
  C3, as the code has it.  Let the values have no duplicate keys, let the new version
  be valid and differ from the current version of some match, and let no block have
  its own \<^verbatim>\<open>tag\<close> string among the inline matches with a version other than the new
  one.  Then the first real run of \<^verbatim>\<open>BumpTagInValuesUniversal\<close> returns true and a
  second run on its result returns false.
\<close>

theorem second_bump_changes_nothing:
  assumes wf: "wf_value (JMap vs)"
    and valid: "isValidSemver newVersion"
    and differs: "\<exists>m \<in> set (findImageBlocksUniversal vs imageName). current_version m \<noteq> newVersion"
    and apart: "\<forall>p m s. Block p m \<in> set (findImageBlocksUniversal vs imageName) \<and>
                  Entry ''tag'' s p \<in> set (findImageBlocksUniversal vs imageName) \<longrightarrow>
                  current_version (Entry ''tag'' s p :: 'n match) = newVersion"
  shows "changed_of (BumpTagInValuesUniversal vs imageName newVersion False) \<and>
         \<not> changed_of (BumpTagInValuesUniversal
              (values_of (BumpTagInValuesUniversal vs imageName newVersion False))
              imageName newVersion False)"
proof
  define ms where "ms = findImageBlocksUniversal vs imageName"
  define as where "as = map (bump_action imageName newVersion False) ms"
  define t' where "t' = fst (run_actions as (JMap vs, False))"
  have ms: "ms = walk imageName [] (JMap vs)"
    by (simp add: ms_def findImageBlocksUniversal_def)
  have in_as: "bump_action imageName newVersion False m \<in> set as" if "m \<in> set ms" for m
    using that by (simp add: as_def)
  have from_as: "\<exists>m \<in> set ms. a = bump_action imageName newVersion False m" if "a \<in> set as" for a
    using that by (auto simp: as_def)
  have block_ok: "map_of m0 ''repository'' = Some (JStr imageName)"
    if "Block r m0 \<in> set ms" for r m0
    using walk_sound[OF wf, of r m0 imageName "[]"] that unfolding ms by blast
  have entry_ok: "prefix (imageName @ '':'') s" if "Entry k s r \<in> set ms" for k s r
    using walk_sound[OF wf, of r _ imageName "[]" k s] that unfolding ms by blast
  have block_in: "Block r m0 \<in> set ms"
    if "get_at r (JMap vs) = Some (JMap m0)" "map_of m0 ''repository'' = Some (JStr imageName)"
    for r m0
  proof -
    have "Block ([] @ r) m0 \<in> set (walk imageName ([] @ r) (JMap m0))"
      using that(2) by (rule walk_JMap_block)
    then show ?thesis
      using walk_subtree[OF that(1), of imageName "[]"] unfolding ms by auto
  qed
  have entry_in: "Entry k s r \<in> set ms"
    if "get_at r (JMap vs) = Some (JMap m0)" "(k, JStr s) \<in> set m0" "prefix (imageName @ '':'') s"
    for r m0 k s
  proof -
    have "Entry k s ([] @ r) \<in> set (walk imageName ([] @ r) (JMap m0))"
      using that(2,3) by (rule walk_JMap_entry)
    then show ?thesis
      using walk_subtree[OF that(1), of imageName "[]"] unfolding ms by auto
  qed
  from differs obtain m where m: "m \<in> set ms" "current_version m \<noteq> newVersion"
    unfolding ms_def by blast
  have "is_update (bump_action imageName newVersion False m)"
  proof (cases m)
    case (Block r m0)
    then show ?thesis using m block_ok[of r m0] valid by (simp add: is_update_structured)
  next
    case (Entry k s r)
    then show ?thesis using m entry_ok[of k s r] valid by (simp add: is_update_aspire)
  qed
  then show "changed_of (BumpTagInValuesUniversal vs imageName newVersion False)"
    unfolding changed_of_universal ms_def[symmetric] using m(1) by blast
  have t': "JMap (values_of (BumpTagInValuesUniversal vs imageName newVersion False)) = t'"
    by (simp add: universal_tree t'_def as_def ms_def)
  have wf': "wf_value t'"
    unfolding t'_def using run_actions_wf[of "(JMap vs, False)" as] wf by simp
  have writes: "(key = ''tag'' \<and> y = newVersion \<and> (\<exists>m0. Block r m0 \<in> set ms)) \<or>
                (y = imageName @ '':'' @ newVersion \<and>
                 (\<exists>s. Entry key s r \<in> set ms \<and> last (split_on CHR '':'' s) \<noteq> newVersion))"
    if "Bumped r key y \<in> set as" for r key y
  proof -
    from from_as[OF that] obtain m where mm: "m \<in> set ms"
      and a: "Bumped r key y = bump_action imageName newVersion False m"
      by blast
    show ?thesis
    proof (cases m)
      case (Block r' m0)
      have "Bumped r key y = (if string_at m0 ''tag'' = newVersion then SkipCurrent
          else Bumped r' ''tag'' newVersion)"
        using a action_of_block[OF block_ok valid, of r' m0 r'] mm Block by simp
      then have "r = r' \<and> key = ''tag'' \<and> y = newVersion"
        by (simp split: if_splits)
      then show ?thesis using mm Block by blast
    next
      case (Entry k s r')
      have "Bumped r key y = (if last (split_on CHR '':'' s) = newVersion then SkipCurrent
          else Bumped r' k (imageName @ '':'' @ newVersion))"
        using a action_of_entry[OF entry_ok valid, of k s r' k r'] mm Entry by simp
      then have "r = r' \<and> key = k \<and> y = imageName @ '':'' @ newVersion \<and>
          last (split_on CHR '':'' s) \<noteq> newVersion"
        by (simp split: if_splits)
      then show ?thesis using mm Entry by blast
    qed
  qed
  have no_update: "\<not> is_update (bump_action imageName newVersion False m')"
    if m': "m' \<in> set (walk imageName [] t')" for m'
  proof (cases m')
    case (Block r m1)
    from walk_sound[OF wf', of r m1 imageName "[]"] m' Block
    have g1: "get_at r t' = Some (JMap m1)"
      and rep1: "map_of m1 ''repository'' = Some (JStr imageName)"
      by auto
    from get_at_run_actions_JMap[OF g1[unfolded t'_def]]
    obtain m0 where g0: "get_at r (JMap vs) = Some (JMap m0)"
      and f: "\<And>key. field_str m1 key =
          (case last_write r key as of Some y \<Rightarrow> Some y | None \<Rightarrow> field_str m0 key)"
      by auto
    have "last_write r ''repository'' as = None"
    proof (rule ccontr)
      assume "last_write r ''repository'' as \<noteq> None"
      then obtain y where y: "last_write r ''repository'' as = Some y" by auto
      from f[of "''repository''"] rep1 y have "y = imageName"
        by (simp add: field_str_def)
      with writes[OF last_write_Some[OF y]] show False by simp
    qed
    with f[of "''repository''"] rep1 have rep0: "map_of m0 ''repository'' = Some (JStr imageName)"
      by (simp add: field_str_Some[symmetric])
    have b0: "Block r m0 \<in> set ms"
      using block_in[OF g0 rep0] .
    have "field_str m1 ''tag'' = Some newVersion"
    proof (cases "last_write r ''tag'' as")
      case None
      then have notin: "Bumped r ''tag'' newVersion \<notin> set as"
        by (rule last_write_None)
      have "string_at m0 ''tag'' = newVersion"
      proof (rule ccontr)
        assume a: "string_at m0 ''tag'' \<noteq> newVersion"
        note eq = action_of_block_bump[OF rep0 valid a, of r]
        from in_as[OF b0] have "Bumped r ''tag'' newVersion \<in> set as"
          unfolding eq .
        with notin show False by simp
      qed
      then have "field_str m0 ''tag'' = Some newVersion"
        using valid_not_Nil[OF valid] by (auto simp: string_at_field_str split: option.splits)
      then show ?thesis using f[of "''tag''"] None by simp
    next
      case (Some y)
      from writes[OF last_write_Some[OF Some]]
      consider "y = newVersion"
        | s where "Entry ''tag'' s r \<in> set ms" "last (split_on CHR '':'' s) \<noteq> newVersion"
        by blast
      then have "y = newVersion"
      proof cases
        case 2
        have "current_version (Entry ''tag'' s r :: 'n match) = newVersion"
          using apart b0 2(1) unfolding ms_def by blast
        with 2(2) show ?thesis by simp
      qed
      then show ?thesis using f[of "''tag''"] Some by simp
    qed
    then have "string_at m1 ''tag'' = newVersion"
      by (simp add: string_at_field_str)
    then show ?thesis using Block rep1 by (simp add: structured_case_def)
  next
    case (Entry k s r)
    from walk_sound[OF wf', of r _ imageName "[]" k s] m' Entry
    obtain m1 where g1: "get_at r t' = Some (JMap m1)"
      and s1: "map_of m1 k = Some (JStr s)"
      and pre: "prefix (imageName @ '':'') s"
      by auto
    from get_at_run_actions_JMap[OF g1[unfolded t'_def]]
    obtain m0 where g0: "get_at r (JMap vs) = Some (JMap m0)"
      and f: "\<And>key. field_str m1 key =
          (case last_write r key as of Some y \<Rightarrow> Some y | None \<Rightarrow> field_str m0 key)"
      by auto
    have fs: "field_str m1 k = Some s"
      using s1 by (simp add: field_str_Some)
    have "last (split_on CHR '':'' s) = newVersion"
    proof (cases "last_write r k as")
      case None
      then have "field_str m0 k = Some s" using f[of k] fs by simp
      then have "(k, JStr s) \<in> set m0"
        by (simp add: field_str_Some map_of_SomeD)
      then have e0: "Entry k s r \<in> set ms"
        using entry_in[OF g0 _ pre] by blast
      have notin: "Bumped r k (imageName @ '':'' @ newVersion) \<notin> set as"
        using None by (rule last_write_None)
      show ?thesis
      proof (rule ccontr)
        assume a: "last (split_on CHR '':'' s) \<noteq> newVersion"
        note eq = action_of_entry_bump[OF pre valid a, of k r]
        from in_as[OF e0] have "Bumped r k (imageName @ '':'' @ newVersion) \<in> set as"
          unfolding eq .
        with notin show False by simp
      qed
    next
      case (Some y)
      then have sy: "s = y" using f[of k] fs by simp
      from writes[OF last_write_Some[OF Some]]
      consider "y = newVersion" | "y = imageName @ '':'' @ newVersion" by blast
      then show ?thesis
      proof cases
        case 1
        with sy pre have "CHR '':'' \<in> set newVersion"
          by (auto simp: prefix_def)
        with valid_no_colon[OF valid] show ?thesis by simp
      next
        case 2
        then show ?thesis
          using sy last_split_on[OF valid_no_colon[OF valid], of imageName] by simp
      qed
    qed
    then show ?thesis using Entry pre by (simp add: aspire_case_def)
  qed
  show "\<not> changed_of (BumpTagInValuesUniversal
              (values_of (BumpTagInValuesUniversal vs imageName newVersion False))
              imageName newVersion False)"
    unfolding changed_of_universal findImageBlocksUniversal_def t' using no_update by blast
qed

theorem second_bump_changes_nothing_witness:
  "changed_of (BumpTagInValuesUniversal mixed_values ''img'' ''1.1.0'' False) \<and>
   values_of (BumpTagInValuesUniversal mixed_values ''img'' ''1.1.0'' False) =
     [(''app'', JMap [(''repository'', JStr ''img''), (''sidecar'', JStr ''img:1.1.0''),
                      (''tag'', JStr ''1.1.0'')])] \<and>
   \<not> changed_of (BumpTagInValuesUniversal
        (values_of (BumpTagInValuesUniversal mixed_values ''img'' ''1.1.0'' False))
        ''img'' ''1.1.0'' False) \<and>
   changed_of (BumpTagInValuesUniversal overlap_values ''img'' ''1.0.0'' False) \<and>
   values_of (BumpTagInValuesUniversal overlap_values ''img'' ''1.0.0'' False) =
     [(''repository'', JStr ''img''), (''tag'', JStr ''1.0.0'')] \<and>
   \<not> changed_of (BumpTagInValuesUniversal
        (values_of (BumpTagInValuesUniversal overlap_values ''img'' ''1.0.0'' False))
        ''img'' ''1.0.0'' False)"
proof -
  have w: "wf_value (JMap mixed_values)"
    by (simp add: mixed_values_def)
  have v: "isValidSemver ''1.1.0''"
    by code_simp
  have f: "findImageBlocksUniversal mixed_values ''img'' =
      [Block [Key ''app''] [(''repository'', JStr ''img''), (''sidecar'', JStr ''img:1.0.0'')],
       Entry ''sidecar'' ''img:1.0.0'' [Key ''app'']]"
    by code_simp
  have c: "current_version (Entry ''sidecar'' ''img:1.0.0'' [Key ''app''] :: nat match) \<noteq> ''1.1.0''"
    by code_simp
  have d: "\<exists>m \<in> set (findImageBlocksUniversal mixed_values ''img''). current_version m \<noteq> ''1.1.0''"
    unfolding f using c by simp
  have a: "\<forall>p m s. Block p m \<in> set (findImageBlocksUniversal mixed_values ''img'') \<and>
      Entry ''tag'' s p \<in> set (findImageBlocksUniversal mixed_values ''img'') \<longrightarrow>
      current_version (Entry ''tag'' s p :: nat match) = ''1.1.0''"
    unfolding f by simp
  have r: "values_of (BumpTagInValuesUniversal mixed_values ''img'' ''1.1.0'' False) =
     [(''app'', JMap [(''repository'', JStr ''img''), (''sidecar'', JStr ''img:1.1.0''),
                      (''tag'', JStr ''1.1.0'')])]"
    by code_simp
  note t = second_bump_changes_nothing[OF w v d a]
  have w': "wf_value (JMap overlap_values)"
    by (simp add: overlap_values_def)
  have v': "isValidSemver ''1.0.0''"
    by code_simp
  have f': "findImageBlocksUniversal overlap_values ''img'' =
      [Block [] [(''repository'', JStr ''img''), (''tag'', JStr ''img:1.0.0'')],
       Entry ''tag'' ''img:1.0.0'' []]"
    by code_simp
  have c': "current_version
      (Block [] [(''repository'', JStr ''img''), (''tag'', JStr ''img:1.0.0'' :: nat jvalue)])
      \<noteq> ''1.0.0''"
    by code_simp
  have d': "\<exists>m \<in> set (findImageBlocksUniversal overlap_values ''img''). current_version m \<noteq> ''1.0.0''"
    unfolding f' using c' by simp
  have e': "current_version (Entry ''tag'' ''img:1.0.0'' [] :: nat match) = ''1.0.0''"
    by code_simp
  have a': "\<forall>p m s. Block p m \<in> set (findImageBlocksUniversal overlap_values ''img'') \<and>
      Entry ''tag'' s p \<in> set (findImageBlocksUniversal overlap_values ''img'') \<longrightarrow>
      current_version (Entry ''tag'' s p :: nat match) = ''1.0.0''"
    unfolding f' using e' by auto
  have r': "values_of (BumpTagInValuesUniversal overlap_values ''img'' ''1.0.0'' False) =
     [(''repository'', JStr ''img''), (''tag'', JStr ''1.0.0'')]"
    by code_simp
  note t' = second_bump_changes_nothing[OF w' v' d' a']
  show ?thesis
    by (intro conjI t[THEN conjunct1] r t[THEN conjunct2] t'[THEN conjunct1] r' t'[THEN conjunct2])
qed

text \<open>
  C3, as the specification states it, fails on a block whose \<^verbatim>\<open>tag\<close> is itself an image
  reference: the first run leaves the inline form in \<^verbatim>\<open>tag\<close>, and the second run
  finds a tag that differs from the version and returns true again.
\<close>

theorem second_bump_counterexample:
  "wf_value (JMap overlap_values) \<and> isValidSemver ''2.0.0'' \<and>
   findImageBlocksUniversal overlap_values ''img'' =
     [Block [] [(''repository'', JStr ''img''), (''tag'', JStr ''img:1.0.0'')],
      Entry ''tag'' ''img:1.0.0'' []] \<and>
   current_version (Entry ''tag'' ''img:1.0.0'' [] :: nat match) \<noteq> ''2.0.0'' \<and>
   changed_of (BumpTagInValuesUniversal overlap_values ''img'' ''2.0.0'' False) \<and>
   values_of (BumpTagInValuesUniversal overlap_values ''img'' ''2.0.0'' False) =
     [(''repository'', JStr ''img''), (''tag'', JStr ''img:2.0.0'')] \<and>
   changed_of (BumpTagInValuesUniversal
      (values_of (BumpTagInValuesUniversal overlap_values ''img'' ''2.0.0'' False))
      ''img'' ''2.0.0'' False)"
proof (intro conjI)
  show "wf_value (JMap overlap_values)"
    by (simp add: overlap_values_def)
  show "isValidSemver ''2.0.0''"
    by code_simp
  show "findImageBlocksUniversal overlap_values ''img'' =
     [Block [] [(''repository'', JStr ''img''), (''tag'', JStr ''img:1.0.0'')],
      Entry ''tag'' ''img:1.0.0'' []]"
    by code_simp
  show "current_version (Entry ''tag'' ''img:1.0.0'' [] :: nat match) \<noteq> ''2.0.0''"
    by code_simp
  show "changed_of (BumpTagInValuesUniversal overlap_values ''img'' ''2.0.0'' False)"
    by code_simp
  show "values_of (BumpTagInValuesUniversal overlap_values ''img'' ''2.0.0'' False) =
     [(''repository'', JStr ''img''), (''tag'', JStr ''img:2.0.0'')]"
    by code_simp
  show "changed_of (BumpTagInValuesUniversal
      (values_of (BumpTagInValuesUniversal overlap_values ''img'' ''2.0.0'' False))
      ''img'' ''2.0.0'' False)"
    by code_simp
qed

text \<open>
  C4.  For an inline match, whose string starts with the image name and a colon, let
  \<open>cur\<close> be what follows the last colon of the string.  The turn is skipped as already
  current exactly when \<open>cur\<close> is the new version.  When it is not, the version is valid
  and the run is real, the turn assigns the image name, a colon and the new version
  to the recorded key of the parent mapping, whatever stood before the last colon.
\<close>

theorem inline_version_and_replacement:
  assumes "prefix (imageName @ '':'') val"
    and "val = pre @ '':'' @ cur" and "CHR '':'' \<notin> set cur"
  shows "(bump_action imageName newVersion dryRun (Entry key val path :: 'n match) = SkipCurrent)
           = (cur = newVersion) \<and>
         (cur \<noteq> newVersion \<and> isValidSemver newVersion \<and> get_at path t = Some (JMap parent) \<longrightarrow>
            (\<exists>t' parent'. bump_match imageName newVersion False (t, updated) (Entry key val path)
                 = (t', True) \<and>
               get_at path t' = Some (JMap parent') \<and>
               map_of parent' key = Some (JStr (imageName @ '':'' @ newVersion))))"
proof -
  have l: "last (split_on CHR '':'' val) = cur"
    using assms(2,3) last_split_on[of "CHR '':''" cur pre] by simp
  have a: "(bump_action imageName newVersion dryRun (Entry key val path :: 'n match) = SkipCurrent)
           = (cur = newVersion)"
    using assms(1) l by (simp add: aspire_case_def Let_def)
  have b: "\<exists>t' parent'. bump_match imageName newVersion False (t, updated) (Entry key val path)
                 = (t', True) \<and>
               get_at path t' = Some (JMap parent') \<and>
               map_of parent' key = Some (JStr (imageName @ '':'' @ newVersion))"
    if "cur \<noteq> newVersion" "isValidSemver newVersion" "get_at path t = Some (JMap parent)"
    using that assms(1) l get_at_assign_same[OF that(3), of key "JStr (imageName @ '':'' @ newVersion)"]
    by (simp add: bump_match_def aspire_case_def Let_def update_conv')
  show ?thesis using a b by blast
qed

theorem inline_version_and_replacement_witness:
  "bump_action ''registry'' ''1.2.3'' False
     (Entry ''api'' ''registry:5000/img:1.2.3'' [Key ''images''] :: nat match) = SkipCurrent \<and>
   bump_match ''registry'' ''2.0.0'' False (registry_values, False)
     (Entry ''api'' ''registry:5000/img:1.2.3'' [Key ''images'']) =
     (JMap [(''images'', JMap [(''api'', JStr ''registry:2.0.0'')])], True) \<and>
   (\<exists>t' parent'.
      bump_match ''registry'' ''2.0.0'' False (registry_values, False)
        (Entry ''api'' ''registry:5000/img:1.2.3'' [Key ''images'']) = (t', True) \<and>
      get_at [Key ''images''] t' = Some (JMap parent') \<and>
      map_of parent' ''api'' = Some (JStr ''registry:2.0.0''))"
proof -
  have p: "prefix (''registry'' @ '':'') ''registry:5000/img:1.2.3''"
    by code_simp
  have d: "''registry:5000/img:1.2.3'' = ''registry:5000/img'' @ '':'' @ ''1.2.3''"
    by simp
  have n: "CHR '':'' \<notin> set ''1.2.3''"
    by simp
  have v: "isValidSemver ''2.0.0''"
    by code_simp
  have g: "get_at [Key ''images''] registry_values =
      Some (JMap [(''api'', JStr ''registry:5000/img:1.2.3'')])"
    by (simp add: registry_values_def)
  have r: "bump_match ''registry'' ''2.0.0'' False (registry_values, False)
     (Entry ''api'' ''registry:5000/img:1.2.3'' [Key ''images'']) =
     (JMap [(''images'', JMap [(''api'', JStr ''registry:2.0.0'')])], True)"
    by code_simp
  have s: "bump_action ''registry'' ''1.2.3'' False
     (Entry ''api'' ''registry:5000/img:1.2.3'' [Key ''images''] :: nat match) = SkipCurrent"
    using inline_version_and_replacement[OF p d n, of "''1.2.3''" False "''api''" "[Key ''images'']"]
    by blast
  have e: "''1.2.3'' \<noteq> ''2.0.0''"
    by simp
  have w0: "\<exists>t' parent'.
      bump_match ''registry'' ''2.0.0'' False (registry_values, False)
        (Entry ''api'' ''registry:5000/img:1.2.3'' [Key ''images'']) = (t', True) \<and>
      get_at [Key ''images''] t' = Some (JMap parent') \<and>
      map_of parent' ''api'' = Some (JStr (''registry'' @ '':'' @ ''2.0.0''))"
    using inline_version_and_replacement[OF p d n, of "''2.0.0''" False "''api''" "[Key ''images'']"
        registry_values "[(''api'', JStr ''registry:5000/img:1.2.3'')]" False] e v g
    by blast
  have w: "\<exists>t' parent'.
      bump_match ''registry'' ''2.0.0'' False (registry_values, False)
        (Entry ''api'' ''registry:5000/img:1.2.3'' [Key ''images'']) = (t', True) \<and>
      get_at [Key ''images''] t' = Some (JMap parent') \<and>
      map_of parent' ''api'' = Some (JStr ''registry:2.0.0'')"
    using w0 by simp
  show ?thesis
    using s r w by blast
qed

text \<open>
  C5.  For every mapping \<open>m\<close> of the tree, reached by the path \<open>p\<close>: when \<open>m\<close> holds the
  image name as a string under \<^verbatim>\<open>repository\<close>, the matcher emits the block \<open>m\<close>,
  with or without a \<^verbatim>\<open>tag\<close>; and for every key of \<open>m\<close> whose value is a string that
  starts with the image name and a colon, it emits the inline match of that key, the
  string and \<open>m\<close> as the parent.  The two hold side by side for the same mapping.
\<close>

theorem matcher_finds_both_kinds:
  assumes "get_at p (JMap vs) = Some (JMap m)"
  shows "(map_of m ''repository'' = Some (JStr imageName) \<longrightarrow>
            Block p m \<in> set (findImageBlocksUniversal vs imageName)) \<and>
         (\<forall>k s. (k, JStr s) \<in> set m \<and> prefix (imageName @ '':'') s \<longrightarrow>
            Entry k s p \<in> set (findImageBlocksUniversal vs imageName))"
  using walk_subtree[OF assms, of imageName "[]"] walk_JMap_block[of m imageName p]
    walk_JMap_entry[of _ _ m imageName p]
  unfolding findImageBlocksUniversal_def by (auto simp del: walk.simps)

theorem matcher_finds_both_kinds_witness:
  "get_at [Key ''app''] (JMap mixed_values) =
     Some (JMap [(''repository'', JStr ''img''), (''sidecar'', JStr ''img:1.0.0'')]) \<and>
   map_of [(''repository'', JStr ''img''), (''sidecar'', JStr ''img:1.0.0'' :: nat jvalue)] ''tag'' = None \<and>
   Block [Key ''app''] [(''repository'', JStr ''img''), (''sidecar'', JStr ''img:1.0.0'')]
     \<in> set (findImageBlocksUniversal mixed_values ''img'') \<and>
   Entry ''sidecar'' ''img:1.0.0'' [Key ''app'']
     \<in> set (findImageBlocksUniversal mixed_values ''img'')"
proof -
  have g: "get_at [Key ''app''] (JMap mixed_values) =
     Some (JMap [(''repository'', JStr ''img''), (''sidecar'', JStr ''img:1.0.0'')])"
    by (simp add: mixed_values_def)
  have r: "map_of [(''repository'', JStr ''img''), (''sidecar'', JStr ''img:1.0.0'' :: nat jvalue)]
      ''repository'' = Some (JStr ''img'')"
    by simp
  have e: "(''sidecar'', JStr ''img:1.0.0'') \<in>
      set [(''repository'', JStr ''img''), (''sidecar'', JStr ''img:1.0.0'' :: nat jvalue)]"
    by simp
  have p: "prefix (''img'' @ '':'') ''img:1.0.0''"
    by code_simp
  note t = matcher_finds_both_kinds[OF g, of "''img''"]
  have b: "Block [Key ''app''] [(''repository'', JStr ''img''), (''sidecar'', JStr ''img:1.0.0'')]
     \<in> set (findImageBlocksUniversal mixed_values ''img'')"
    using t r by blast
  have i: "Entry ''sidecar'' ''img:1.0.0'' [Key ''app'']
     \<in> set (findImageBlocksUniversal mixed_values ''img'')"
    using t e p by blast
  show ?thesis
    using g b i by simp
qed

text \<open>
  C6.  \<^verbatim>\<open>isValidSemver\<close> accepts exactly the strings of that format.  It rejects the
  empty string; and when it accepts a string with two dots after dot-free parts \<open>a\<close>
  and \<open>b\<close>, then \<open>a\<close> is a run of digits, possibly after a \<^verbatim>\<open>v\<close>, \<open>b\<close> is a run of
  digits, and the rest starts with a run of digits that ends at a hyphen, at a plus
  sign or at the end.
\<close>

theorem isValidSemver_iff_form:
  "isValidSemver s = semver_form s \<and> \<not> isValidSemver [] \<and>
   (isValidSemver (a @ ''.'' @ b @ ''.'' @ c) \<and> CHR ''.'' \<notin> set a \<and> CHR ''.'' \<notin> set b \<longrightarrow>
      (digits a \<or> (\<exists>a'. a = ''v'' @ a' \<and> digits a')) \<and> digits b \<and>
      (\<exists>patch r. c = patch @ r \<and> digits patch \<and>
         (r = [] \<or> hd r = CHR ''-'' \<or> hd r = CHR ''+'')))"
proof (intro conjI)
  show "isValidSemver s = semver_form s"
    by (rule isValidSemver_form)
  show "\<not> isValidSemver []"
    by (simp add: isValidSemver_unfold digits_def)
  show "isValidSemver (a @ ''.'' @ b @ ''.'' @ c) \<and> CHR ''.'' \<notin> set a \<and> CHR ''.'' \<notin> set b \<longrightarrow>
      (digits a \<or> (\<exists>a'. a = ''v'' @ a' \<and> digits a')) \<and> digits b \<and>
      (\<exists>patch r. c = patch @ r \<and> digits patch \<and>
         (r = [] \<or> hd r = CHR ''-'' \<or> hd r = CHR ''+''))"
    using semver_components[of a b c] by blast
qed

theorem isValidSemver_iff_form_witness:
  "isValidSemver ''v1.20.3-rc.1+build-5'' \<and> semver_form ''v1.20.3-rc.1+build-5'' \<and>
   digits ''20'' \<and>
   \<not> isValidSemver ''1.x.3'' \<and> \<not> semver_form ''1.x.3'' \<and>
   \<not> isValidSemver ''not-a-version'' \<and> \<not> semver_form ''not-a-version''"
proof -
  have a: "isValidSemver ''v1.20.3-rc.1+build-5''"
    by code_simp
  have b: "\<not> isValidSemver ''1.x.3''"
    by code_simp
  have c: "\<not> isValidSemver ''not-a-version''"
    by code_simp
  have d: "isValidSemver (''v1'' @ ''.'' @ ''20'' @ ''.'' @ ''3-rc.1+build-5'')"
    using a by simp
  have n: "CHR ''.'' \<notin> set ''v1''" "CHR ''.'' \<notin> set ''20''"
    by simp_all
  have e: "digits ''20''"
    using d n isValidSemver_iff_form[of "[]" "''v1''" "''20''" "''3-rc.1+build-5''"] by blast
  show ?thesis
    using a b c e isValidSemver_iff_form[of "''v1.20.3-rc.1+build-5''"]
      isValidSemver_iff_form[of "''1.x.3''"] isValidSemver_iff_form[of "''not-a-version''"]
    by blast
qed

text \<open>
  C7.  A version that fails the format check changes nothing and reports no change,
  whatever the image and the values; in the loop over several updates the entry with
  that version is passed over, and the entries before and after it have the effect and
  the count they have without it.
\<close>

theorem invalid_version_is_skipped:
  assumes "\<not> isValidSemver badVersion"
  shows "BumpTagInValuesUniversal vs imageName badVersion dryRun = (vs, False, None) \<and>
         bump_updates vs (before @ (imageName, badVersion) # after) dryRun n =
           bump_updates vs (before @ after) dryRun n"
  using assms by (simp add: universal_invalid bump_updates_skip_invalid)

theorem invalid_version_is_skipped_witness:
  "\<not> isValidSemver ''not-a-version'' \<and>
   BumpTagInValuesUniversal example_values ''ghcr.io/my-org/my-api'' ''not-a-version'' False =
     (example_values, False, None) \<and>
   bump_updates example_values
     [(''ghcr.io/my-org/my-api'', ''not-a-version''), (''ghcr.io/my-org/api'', ''1.3.9'')] False 0 =
     ([(''image'', JMap [(''repository'', JStr ''ghcr.io/my-org/my-api''), (''tag'', JStr ''1.2.3'')]),
       (''images'', JMap [(''api'', JStr ''ghcr.io/my-org/api:1.3.9'')])], 1, None)"
proof -
  have h: "\<not> isValidSemver ''not-a-version''"
    by code_simp
  have r: "bump_updates example_values [(''ghcr.io/my-org/api'', ''1.3.9'')] False 0 =
     ([(''image'', JMap [(''repository'', JStr ''ghcr.io/my-org/my-api''), (''tag'', JStr ''1.2.3'')]),
       (''images'', JMap [(''api'', JStr ''ghcr.io/my-org/api:1.3.9'')])], 1, None)"
    by code_simp
  show ?thesis
    using h r invalid_version_is_skipped[OF h, of example_values "''ghcr.io/my-org/my-api''" False
        "[]" "[(''ghcr.io/my-org/api'', ''1.3.9'')]" 0]
    by simp
qed

text \<open>
  C8.  \<^verbatim>\<open>BumpTagInValues\<close> returns false exactly when \<^verbatim>\<open>findImageBlocks\<close> finds no
  block; with a block it returns true, also when the block was skipped (the universal
  function returns false on the same input).
\<close>

theorem structured_only_changed_iff_match:
  "changed_of (BumpTagInValues vs imageName newVersion dryRun) =
     (findImageBlocks vs imageName \<noteq> [])"
  by (simp add: changed_of_def BumpTagInValues_def Let_def)

theorem structured_only_changed_iff_match_witness:
  "findImageBlocks example_values ''ghcr.io/my-org/my-api'' =
     [Block [Key ''image''] [(''repository'', JStr ''ghcr.io/my-org/my-api''), (''tag'', JStr ''1.2.3'')]] \<and>
   bump_block_action ''ghcr.io/my-org/my-api'' ''1.2.3'' False
     (Block [Key ''image''] [(''repository'', JStr ''ghcr.io/my-org/my-api''), (''tag'', JStr ''1.2.3'')] :: nat match)
     = SkipCurrent \<and>
   changed_of (BumpTagInValues example_values ''ghcr.io/my-org/my-api'' ''1.2.3'' False) \<and>
   \<not> changed_of (BumpTagInValuesUniversal example_values ''ghcr.io/my-org/my-api'' ''1.2.3'' False) \<and>
   findImageBlocks example_values ''nginx'' = [] \<and>
   \<not> changed_of (BumpTagInValues example_values ''nginx'' ''1.2.3'' False)"
proof -
  have f: "findImageBlocks example_values ''ghcr.io/my-org/my-api'' =
     [Block [Key ''image''] [(''repository'', JStr ''ghcr.io/my-org/my-api''), (''tag'', JStr ''1.2.3'')]]"
    by code_simp
  have a: "bump_block_action ''ghcr.io/my-org/my-api'' ''1.2.3'' False
     (Block [Key ''image''] [(''repository'', JStr ''ghcr.io/my-org/my-api''), (''tag'', JStr ''1.2.3'')] :: nat match)
     = SkipCurrent"
    by code_simp
  have u: "\<not> changed_of (BumpTagInValuesUniversal example_values ''ghcr.io/my-org/my-api'' ''1.2.3'' False)"
    by code_simp
  have n: "findImageBlocks example_values ''nginx'' = []"
    by code_simp
  show ?thesis
    using f a u n
      structured_only_changed_iff_match[of example_values "''ghcr.io/my-org/my-api''" "''1.2.3''" False]
      structured_only_changed_iff_match[of example_values "''nginx''" "''1.2.3''" False]
    by simp
qed

text \<open>
  C9.  For a block whose \<^verbatim>\<open>repository\<close> is the image name and whose \<^verbatim>\<open>tag\<close> is
  missing or not a string, both rewriters read the current tag as the empty string:
  the turn is skipped as already current only for the empty new version, and with a
  valid version a real run assigns the new version, as a string, to \<^verbatim>\<open>tag\<close> of
  that block.
\<close>

theorem block_without_string_tag:
  assumes "map_of m ''repository'' = Some (JStr imageName)"
    and "\<forall>s. map_of m ''tag'' \<noteq> Some (JStr s)"
  shows "(bump_action imageName newVersion dryRun (Block p m) = SkipCurrent) = (newVersion = []) \<and>
         (bump_block_action imageName newVersion dryRun (Block p m) = SkipCurrent) = (newVersion = []) \<and>
         (isValidSemver newVersion \<and> get_at p t = Some (JMap m) \<longrightarrow>
            bump_match imageName newVersion False (t, updated) (Block p m) =
              (assign p ''tag'' (JStr newVersion) t, True) \<and>
            apply_block_action (bump_block_action imageName newVersion False (Block p m)) t =
              assign p ''tag'' (JStr newVersion) t \<and>
            get_at p (assign p ''tag'' (JStr newVersion) t) =
              Some (JMap (AList.update ''tag'' (JStr newVersion) m)) \<and>
            map_of (AList.update ''tag'' (JStr newVersion) m) ''tag'' = Some (JStr newVersion))"
proof -
  have e: "string_at m ''tag'' = []"
    using assms(2) by (auto simp: string_at_def split: option.splits jvalue.splits)
  have v: "isValidSemver newVersion \<Longrightarrow> newVersion \<noteq> []"
    by (auto simp: isValidSemver_def semverRegex_def Opt_def Plus_def Lit_def)
  show ?thesis
    using assms(1) e v
    by (auto simp: structured_case_def Let_def bump_match_def get_at_assign_same update_conv')
qed

theorem block_without_string_tag_witness:
  "bump_action ''busybox'' ''1.36.0'' False
     (Block [Key ''image''] [(''repository'', JStr ''busybox''), (''tag'', JNum (7::nat))])
     \<noteq> SkipCurrent \<and>
   bump_match ''busybox'' ''1.36.0'' False (untagged_values, False)
     (Block [Key ''image''] [(''repository'', JStr ''busybox''), (''tag'', JNum 7)]) =
     (JMap [(''image'', JMap [(''repository'', JStr ''busybox''), (''tag'', JStr ''1.36.0'')])], True)"
proof -
  have r: "map_of [(''repository'', JStr ''busybox''), (''tag'', JNum (7::nat))] ''repository'' =
      Some (JStr ''busybox'')"
    by simp
  have n: "\<forall>s. map_of [(''repository'', JStr ''busybox''), (''tag'', JNum (7::nat))] ''tag'' \<noteq>
      Some (JStr s)"
    by simp
  have v: "isValidSemver ''1.36.0''"
    by code_simp
  have g: "get_at [Key ''image''] untagged_values =
      Some (JMap [(''repository'', JStr ''busybox''), (''tag'', JNum 7)])"
    by (simp add: untagged_values_def)
  have a: "assign [Key ''image''] ''tag'' (JStr ''1.36.0'') untagged_values =
      JMap [(''image'', JMap [(''repository'', JStr ''busybox''), (''tag'', JStr ''1.36.0'')])]"
    by code_simp
  show ?thesis
    using block_without_string_tag[OF r n, of "''1.36.0''" False "[Key ''image'']"
        untagged_values False] v g a
    by simp
qed

text \<open>
  C10.  A sequence whose elements are strings yields no match, whatever the strings
  are.  In a tree without duplicate keys every inline match names a mapping of the
  tree, as its parent, that holds the matched string under the matched key.  And every
  sequence of the values after \<^verbatim>\<open>BumpTagInValuesUniversal\<close> is a sequence of the values
  before it, at the same place and of the same length, with the same strings at the
  same positions: a string that is an element of a sequence is not rewritten.
\<close>

theorem sequence_strings_are_not_matches:
  "((\<forall>x \<in> set xs. \<exists>s. x = JStr s) \<longrightarrow> walk imageName p (JSeq xs) = []) \<and>
   (wf_value (JMap vs) \<and> Entry k s r \<in> set (findImageBlocksUniversal vs imageName) \<longrightarrow>
      (\<exists>m. get_at r (JMap vs) = Some (JMap m) \<and> map_of m k = Some (JStr s))) \<and>
   (get_at q (JMap (values_of (BumpTagInValuesUniversal vs imageName newVersion dryRun)))
        = Some (JSeq ys') \<longrightarrow>
      (\<exists>ys. get_at q (JMap vs) = Some (JSeq ys) \<and> length ys' = length ys \<and>
         (\<forall>j s. j < length ys \<longrightarrow> (ys' ! j = JStr s) = (ys ! j = JStr s))))"
proof (intro conjI impI)
  assume "\<forall>x \<in> set xs. \<exists>s. x = JStr s"
  then show "walk imageName p (JSeq xs) = []"
    by (rule walk_strings)
next
  assume a: "wf_value (JMap vs) \<and> Entry k s r \<in> set (findImageBlocksUniversal vs imageName)"
  then show "\<exists>m. get_at r (JMap vs) = Some (JMap m) \<and> map_of m k = Some (JStr s)"
    using walk_sound[of "JMap vs" r undefined imageName "[]" k s]
    unfolding findImageBlocksUniversal_def by auto
next
  assume "get_at q (JMap (values_of (BumpTagInValuesUniversal vs imageName newVersion dryRun)))
        = Some (JSeq ys')"
  then show "\<exists>ys. get_at q (JMap vs) = Some (JSeq ys) \<and> length ys' = length ys \<and>
         (\<forall>j s. j < length ys \<longrightarrow> (ys' ! j = JStr s) = (ys ! j = JStr s))"
    unfolding universal_tree using get_at_run_actions_JSeq[of q _ "(JMap vs, False)" ys'] by simp
qed

theorem sequence_strings_are_not_matches_witness:
  "walk ''img'' [Key ''args''] (JSeq [JStr ''img:1.0.0'', JStr ''other''] :: nat jvalue) = [] \<and>
   findImageBlocksUniversal seq_values ''img'' = [Entry ''main'' ''img:1.0.0'' []] \<and>
   (\<exists>m. get_at [] (JMap seq_values) = Some (JMap m) \<and> map_of m ''main'' = Some (JStr ''img:1.0.0'')) \<and>
   values_of (BumpTagInValuesUniversal seq_values ''img'' ''2.0.0'' False) =
     [(''args'', JSeq [JStr ''img:1.0.0'', JStr ''other'']), (''main'', JStr ''img:2.0.0'')] \<and>
   (\<exists>ys. get_at [Key ''args''] (JMap seq_values) = Some (JSeq ys) \<and>
      length [JStr ''img:1.0.0'', JStr ''other'' :: nat jvalue] = length ys \<and>
      ys ! 0 = JStr ''img:1.0.0'')"
proof -
  note t = sequence_strings_are_not_matches[of "[JStr ''img:1.0.0'', JStr ''other'']" "''img''"
      "[Key ''args'']" seq_values "''main''" "''img:1.0.0''" "[]" "[Key ''args'']" "''2.0.0''" False
      "[JStr ''img:1.0.0'', JStr ''other'']"]
  have s: "\<forall>x \<in> set [JStr ''img:1.0.0'', JStr ''other'' :: nat jvalue]. \<exists>s. x = JStr s"
    by simp
  have a: "walk ''img'' [Key ''args''] (JSeq [JStr ''img:1.0.0'', JStr ''other''] :: nat jvalue) = []"
    by (rule mp[OF t[THEN conjunct1] s])
  have f: "findImageBlocksUniversal seq_values ''img'' = [Entry ''main'' ''img:1.0.0'' []]"
    by code_simp
  have w: "wf_value (JMap seq_values)"
    by (simp add: seq_values_def)
  have e: "Entry ''main'' ''img:1.0.0'' [] \<in> set (findImageBlocksUniversal seq_values ''img'')"
    by (simp add: f)
  have b: "\<exists>m. get_at [] (JMap seq_values) = Some (JMap m) \<and>
      map_of m ''main'' = Some (JStr ''img:1.0.0'')"
    by (rule mp[OF t[THEN conjunct2, THEN conjunct1] conjI[OF w e]])
  have v: "values_of (BumpTagInValuesUniversal seq_values ''img'' ''2.0.0'' False) =
     [(''args'', JSeq [JStr ''img:1.0.0'', JStr ''other'']), (''main'', JStr ''img:2.0.0'')]"
    by code_simp
  have g: "get_at [Key ''args'']
      (JMap (values_of (BumpTagInValuesUniversal seq_values ''img'' ''2.0.0'' False))) =
      Some (JSeq [JStr ''img:1.0.0'', JStr ''other''])"
    by (simp add: v)
  have c0: "\<exists>ys. get_at [Key ''args''] (JMap seq_values) = Some (JSeq ys) \<and>
      length [JStr ''img:1.0.0'', JStr ''other'' :: nat jvalue] = length ys \<and>
      (\<forall>j s. j < length ys \<longrightarrow>
         ([JStr ''img:1.0.0'', JStr ''other'' :: nat jvalue] ! j = JStr s) = (ys ! j = JStr s))"
    by (rule mp[OF t[THEN conjunct2, THEN conjunct2] g])
  then obtain ys where y: "get_at [Key ''args''] (JMap seq_values) = Some (JSeq ys)"
    "length [JStr ''img:1.0.0'', JStr ''other'' :: nat jvalue] = length ys"
    "\<And>j s. j < length ys \<Longrightarrow>
         ([JStr ''img:1.0.0'', JStr ''other'' :: nat jvalue] ! j = JStr s) = (ys ! j = JStr s)"
    by blast
  have "0 < length ys"
    using y(2) by auto
  from y(3)[OF this, of "''img:1.0.0''"] have "ys ! 0 = JStr ''img:1.0.0''"
    by simp
  then have c: "\<exists>ys. get_at [Key ''args''] (JMap seq_values) = Some (JSeq ys) \<and>
      length [JStr ''img:1.0.0'', JStr ''other'' :: nat jvalue] = length ys \<and>
      ys ! 0 = JStr ''img:1.0.0''"
    using y(1,2) by blast
  show ?thesis
    by (intro conjI a f b v c)
qed

end
